theory Spec2Isabelle
  imports Main "HOL-Library.Word"
begin

section \<open>Data model\<close>

text \<open>
  A Node \<open>Buffer\<close> is a list of bytes.  A JavaScript string is a list of UTF-16 code
  units, which is what \<open>String.prototype.length\<close> counts and what a regular expression
  without the \<open>u\<close> flag matches one at a time.
\<close>

type_synonym byte = "8 word"
type_synonym buffer = "byte list"
type_synonym jsstring = "16 word list"

text \<open>
  Every \<open>throw\<close> of the sources is a value of this type.  \<open>ValidationError\<close> carries
  its \<open>field\<close> and \<open>SecurityError\<close> its \<open>code\<close>, as the two classes of
  \<open>utils/security.js\<close> do; the remaining constructors stand for the plain \<open>Error\<close>
  objects, one per message:
  \<^item> \<open>RangeError\<close>: \<open>writeUInt32BE\<close>/\<open>readUInt32BE\<close> out of range (thrown by Node);
  \<^item> \<open>BufferTooSmall\<close>: \<open>EncryptedChunk.fromBuffer\<close>, "Buffer invalido ou muito pequeno";
  \<^item> \<open>AADVideoId\<close>, \<open>AADChunkIndex\<close>: the two errors of \<open>createAAD\<close>;
  \<^item> \<open>AuthenticationFailed i\<close>: \<open>decryptChunk\<close>, "Falha na autenticacao do chunk i";
  \<^item> \<open>UnprocessedBytes n\<close>: \<open>_flush\<close> of the length-prefixed deserialization stream,
    "Buffer contem n bytes nao processados";
  \<^item> \<open>UnprocessedData\<close>: \<open>_flush\<close> of the frame-per-write deserialization stream;
  \<^item> \<open>HexKeyEmpty\<close>, \<open>HexKeyInvalidChars\<close>: the two errors of \<open>importMasterKey\<close>;
  \<^item> \<open>InvalidAuthTag\<close>, \<open>InvalidIV\<close>: thrown by Node's \<open>setAuthTag\<close> and
    \<open>createDecipheriv\<close> on a tag that is not 16 bytes long and on an empty nonce.
\<close>

datatype error =
    ValidationError string
  | SecurityError string
  | RangeError
  | BufferTooSmall
  | AADVideoId
  | AADChunkIndex
  | AuthenticationFailed nat
  | UnprocessedBytes nat
  | UnprocessedData
  | HexKeyEmpty
  | HexKeyInvalidChars
  | InvalidAuthTag
  | InvalidIV

subsection \<open>\<open>config.js\<close>\<close>

definition CHUNK_SIZE :: nat where "CHUNK_SIZE = 524288"
definition KEY_LENGTH :: nat where "KEY_LENGTH = 32"
definition IV_LENGTH :: nat where "IV_LENGTH = 12"
definition AUTH_TAG_LENGTH :: nat where "AUTH_TAG_LENGTH = 16"
definition HEADER_TOTAL_SIZE :: nat where "HEADER_TOTAL_SIZE = 32"

text \<open>\<open>CONFIG.HKDF.INFO\<close>, the ASCII bytes of \<open>@kitsuneislife/keyring-vcm-v1\<close>.\<close>

definition HKDF_INFO :: buffer where
  "HKDF_INFO = map (\<lambda>c. of_nat (of_char c)) ''@kitsuneislife/keyring-vcm-v1''"

subsection \<open>Buffer primitives of Node\<close>

text \<open>\<open>buf.slice(a, b)\<close> for \<open>0 \<le> a \<le> b\<close>: both ends are clamped to the length.\<close>

definition slice_buf :: "nat \<Rightarrow> nat \<Rightarrow> buffer \<Rightarrow> buffer" where
  "slice_buf a b buf = take (b - a) (drop a buf)"

text \<open>The four bytes \<open>writeUInt32BE\<close> stores for a value below \<open>2^32\<close>.\<close>

definition uint32_be :: "nat \<Rightarrow> buffer" where
  "uint32_be v = [of_nat (v div 16777216), of_nat (v div 65536), of_nat (v div 256), of_nat v]"

text \<open>
  \<open>Buffer.allocUnsafe(4)\<close> followed by \<open>writeUInt32BE(v, 0)\<close>: Node throws a
  \<open>RangeError\<close> when the value does not fit 32 bits.
\<close>

definition writeUInt32BE :: "nat \<Rightarrow> error + buffer" where
  "writeUInt32BE v = (if v < 4294967296 then Inr (uint32_be v) else Inl RangeError)"

text \<open>\<open>buf.readUInt32BE(0)\<close>: Node throws a \<open>RangeError\<close> on fewer than four bytes.\<close>

fun readUInt32BE :: "buffer \<Rightarrow> error + nat" where
  "readUInt32BE (a # b # c # d # rest) =
     Inr (unat a * 16777216 + unat b * 65536 + unat c * 256 + unat d)"
| "readUInt32BE _ = Inl RangeError"

subsection \<open>\<open>core/chunk-crypto.js\<close>: \<open>EncryptedChunk\<close>\<close>

record EncryptedChunk =
  index :: nat
  iv :: buffer
  tag :: buffer
  ciphertext :: buffer

text \<open>\<open>EncryptedChunk.toBuffer\<close>.\<close>

definition toBuffer :: "EncryptedChunk \<Rightarrow> error + buffer" where
  "toBuffer c =
     (case writeUInt32BE (index c) of
        Inl e \<Rightarrow> Inl e
      | Inr indexBuffer \<Rightarrow> Inr (indexBuffer @ iv c @ tag c @ ciphertext c))"

text \<open>\<open>EncryptedChunk.fromBuffer\<close>; the guard compares with \<open>CONFIG.HEADER.TOTAL_SIZE\<close>.\<close>

definition fromBuffer :: "buffer \<Rightarrow> error + EncryptedChunk" where
  "fromBuffer buf =
     (if length buf < HEADER_TOTAL_SIZE then Inl BufferTooSmall
      else case readUInt32BE buf of
        Inl e \<Rightarrow> Inl e
      | Inr i \<Rightarrow> Inr \<lparr>index = i, iv = slice_buf 4 16 buf, tag = slice_buf 16 32 buf,
                     ciphertext = drop 32 buf\<rparr>)"

text \<open>The getter \<open>size\<close>.\<close>

definition size_chunk :: "EncryptedChunk \<Rightarrow> nat" where
  "size_chunk c = HEADER_TOTAL_SIZE + length (ciphertext c)"

subsection \<open>Strings and their encodings\<close>

text \<open>
  \<open>Buffer.from(s, 'utf8')\<close> (also what \<open>hash.update(s)\<close> does with a string): the
  UTF-16 code units are read as code points, a surrogate pair as one, a lone surrogate as
  U+FFFD, and each code point is written in UTF-8.
\<close>

definition is_high_surrogate :: "16 word \<Rightarrow> bool" where
  "is_high_surrogate u = (0xD800 \<le> u \<and> u \<le> 0xDBFF)"

definition is_low_surrogate :: "16 word \<Rightarrow> bool" where
  "is_low_surrogate u = (0xDC00 \<le> u \<and> u \<le> 0xDFFF)"

definition lone_unit :: "16 word \<Rightarrow> nat" where
  "lone_unit u = (if is_high_surrogate u \<or> is_low_surrogate u then 0xFFFD else unat u)"

fun code_points :: "jsstring \<Rightarrow> nat list" where
  "code_points [] = []"
| "code_points [u] = [lone_unit u]"
| "code_points (u # v # rest) =
     (if is_high_surrogate u \<and> is_low_surrogate v
      then (0x10000 + (unat u - 0xD800) * 1024 + (unat v - 0xDC00)) # code_points rest
      else lone_unit u # code_points (v # rest))"

definition utf8_code_point :: "nat \<Rightarrow> buffer" where
  "utf8_code_point c =
     (if c < 0x80 then [of_nat c]
      else if c < 0x800 then [of_nat (0xC0 + c div 64), of_nat (0x80 + c mod 64)]
      else if c < 0x10000 then
        [of_nat (0xE0 + c div 4096), of_nat (0x80 + c div 64 mod 64), of_nat (0x80 + c mod 64)]
      else
        [of_nat (0xF0 + c div 262144), of_nat (0x80 + c div 4096 mod 64),
         of_nat (0x80 + c div 64 mod 64), of_nat (0x80 + c mod 64)])"

definition utf8 :: "jsstring \<Rightarrow> buffer" where
  "utf8 s = concat (map utf8_code_point (code_points s))"

text \<open>
  \<open>Buffer.from(s, 'hex')\<close>, as Node documents it: two digits give one byte, decoding
  stops at the first pair that is not two hexadecimal digits, and a single digit left at
  the end is dropped.
\<close>

definition hex_digit :: "16 word \<Rightarrow> nat option" where
  "hex_digit u =
     (if 0x30 \<le> u \<and> u \<le> 0x39 then Some (unat u - 0x30)
      else if 0x61 \<le> u \<and> u \<le> 0x66 then Some (unat u - 0x61 + 10)
      else if 0x41 \<le> u \<and> u \<le> 0x46 then Some (unat u - 0x41 + 10)
      else None)"

fun hex_decode :: "jsstring \<Rightarrow> buffer" where
  "hex_decode (a # b # rest) =
     (case hex_digit a of
        None \<Rightarrow> []
      | Some x \<Rightarrow> (case hex_digit b of
          None \<Rightarrow> []
        | Some y \<Rightarrow> of_nat (16 * x + y) # hex_decode rest))"
| "hex_decode _ = []"

subsection \<open>The primitives of \<open>node:crypto\<close>\<close>

text \<open>
  SHA-256, HMAC-SHA-256 and AES-256-GCM are not code of this repository: the model takes
  them as parameters.  \<open>hmac_sha256 P key msg\<close> is
  \<open>createHmac('sha256', key).update(msg).digest()\<close>; \<open>gcm_encrypt P key nonce aad pt\<close>
  is the pair of ciphertext and tag; \<open>gcm_decrypt P key nonce aad ct tag\<close> is \<open>None\<close>
  when \<open>decipher.final()\<close> throws.  The nonce that \<open>crypto.randomBytes\<close> draws for a
  frame is an explicit argument of \<open>encryptChunk\<close>.
\<close>

record primitives =
  sha256 :: "buffer \<Rightarrow> buffer"
  hmac_sha256 :: "buffer \<Rightarrow> buffer \<Rightarrow> buffer"
  gcm_encrypt :: "buffer \<Rightarrow> buffer \<Rightarrow> buffer \<Rightarrow> buffer \<Rightarrow> buffer \<times> buffer"
  gcm_decrypt :: "buffer \<Rightarrow> buffer \<Rightarrow> buffer \<Rightarrow> buffer \<Rightarrow> buffer \<Rightarrow> buffer option"

subsection \<open>\<open>utils/security.js\<close>\<close>

definition MAX_VIDEO_ID_LENGTH :: nat where "MAX_VIDEO_ID_LENGTH = 255"
definition MIN_VIDEO_ID_LENGTH :: nat where "MIN_VIDEO_ID_LENGTH = 1"
definition MAX_CHUNKS_PER_VIDEO :: nat where "MAX_CHUNKS_PER_VIDEO = 100000"

text \<open>
  \<open>VIDEO_ID_PATTERN = /^[a-zA-Z0-9\-_:.]+$/\<close>: without the \<open>m\<close> flag the anchors are
  the two ends of the string, so \<open>test\<close> holds for the non-empty strings made of these
  characters only.
\<close>

definition id_char :: "16 word \<Rightarrow> bool" where
  "id_char u = ((0x61 \<le> u \<and> u \<le> 0x7A) \<or> (0x41 \<le> u \<and> u \<le> 0x5A) \<or> (0x30 \<le> u \<and> u \<le> 0x39)
                 \<or> u = 0x2D \<or> u = 0x5F \<or> u = 0x3A \<or> u = 0x2E)"

definition VIDEO_ID_PATTERN_test :: "jsstring \<Rightarrow> bool" where
  "VIDEO_ID_PATTERN_test s = (s \<noteq> [] \<and> list_all id_char s)"

text \<open>
  \<open>validateMasterKey\<close>, on a \<open>Buffer\<close> (an object, so never falsy).
  \<open>new Set(masterKey).size\<close> is the number of distinct bytes.
\<close>

definition validateMasterKey :: "buffer \<Rightarrow> error + unit" where
  "validateMasterKey masterKey =
     (if length masterKey \<noteq> KEY_LENGTH then Inl (ValidationError ''masterKey'')
      else if list_all (\<lambda>b. b = 0) masterKey then Inl (SecurityError ''WEAK_KEY'')
      else if length (remdups masterKey) < 16 then Inl (SecurityError ''WEAK_KEY'')
      else Inr ())"

text \<open>\<open>validateVideoId\<close>, on a string: only the empty string is falsy.\<close>

definition validateVideoId :: "jsstring \<Rightarrow> error + unit" where
  "validateVideoId videoId =
     (if videoId = [] then Inl (ValidationError ''videoId'')
      else if length videoId < MIN_VIDEO_ID_LENGTH then Inl (ValidationError ''videoId'')
      else if length videoId > MAX_VIDEO_ID_LENGTH then Inl (ValidationError ''videoId'')
      else if \<not> VIDEO_ID_PATTERN_test videoId then Inl (ValidationError ''videoId'')
      else Inr ())"

text \<open>\<open>validateChunkIndex\<close>, on a non-negative integer.\<close>

definition validateChunkIndex :: "nat \<Rightarrow> error + unit" where
  "validateChunkIndex chunkIndex =
     (if chunkIndex > 0xFFFFFFFF then Inl (ValidationError ''chunkIndex'')
      else if chunkIndex > MAX_CHUNKS_PER_VIDEO then Inl (SecurityError ''TOO_MANY_CHUNKS'')
      else Inr ())"

text \<open>\<open>validateBuffer\<close>, on a \<open>Buffer\<close>.\<close>

definition validateBuffer :: "buffer \<Rightarrow> string \<Rightarrow> error + unit" where
  "validateBuffer buf fieldName =
     (if length buf = 0 then Inl (ValidationError fieldName) else Inr ())"

subsection \<open>\<open>utils/aad.js\<close>\<close>

definition createAAD :: "primitives \<Rightarrow> jsstring \<Rightarrow> nat \<Rightarrow> error + buffer" where
  "createAAD P videoId chunkIndex =
     (if videoId = [] then Inl AADVideoId
      else if chunkIndex > 0xFFFFFFFF then Inl AADChunkIndex
      else let videoIdBuffer = utf8 videoId;
               indexBuffer = uint32_be chunkIndex;
               combined = videoIdBuffer @ indexBuffer
           in Inr (sha256 P combined))"

subsection \<open>\<open>utils/hkdf.js\<close>\<close>

definition deriveVideoKey :: "primitives \<Rightarrow> buffer \<Rightarrow> jsstring \<Rightarrow> error + buffer" where
  "deriveVideoKey P masterKey videoId =
     (case validateMasterKey masterKey of
        Inl e \<Rightarrow> Inl e
      | Inr _ \<Rightarrow> (case validateVideoId videoId of
          Inl e \<Rightarrow> Inl e
        | Inr _ \<Rightarrow>
            let salt = sha256 P (utf8 videoId);
                prk = hmac_sha256 P salt masterKey;
                info = HKDF_INFO;
                infoWithCounter = info @ [0x01]
            in Inr (slice_buf 0 KEY_LENGTH (hmac_sha256 P prk infoWithCounter))))"

text \<open>\<open>importMasterKey\<close>, on a string; the test is \<open>/^[0-9a-fA-F]+$/\<close>.\<close>

definition importMasterKey :: "jsstring \<Rightarrow> error + buffer" where
  "importMasterKey hexKey =
     (if hexKey = [] then Inl HexKeyEmpty
      else if \<not> list_all (\<lambda>u. hex_digit u \<noteq> None) hexKey then Inl HexKeyInvalidChars
      else let key = hex_decode hexKey
           in (case validateMasterKey key of Inl e \<Rightarrow> Inl e | Inr _ \<Rightarrow> Inr key))"

subsection \<open>\<open>core/chunk-crypto.js\<close>: \<open>encryptChunk\<close> and \<open>decryptChunk\<close>\<close>

text \<open>\<open>nonce\<close> is the value of \<open>crypto.randomBytes(CONFIG.CRYPTO.IV_LENGTH)\<close>.\<close>

definition encryptChunk ::
  "primitives \<Rightarrow> buffer \<Rightarrow> buffer \<Rightarrow> buffer \<Rightarrow> jsstring \<Rightarrow> nat \<Rightarrow> error + EncryptedChunk" where
  "encryptChunk P nonce plaintext videoKey videoId chunkIndex =
     (case validateBuffer plaintext ''plaintext'' of Inl e \<Rightarrow> Inl e | Inr _ \<Rightarrow>
     (case validateMasterKey videoKey of Inl e \<Rightarrow> Inl e | Inr _ \<Rightarrow>
     (case validateVideoId videoId of Inl e \<Rightarrow> Inl e | Inr _ \<Rightarrow>
     (case validateChunkIndex chunkIndex of Inl e \<Rightarrow> Inl e | Inr _ \<Rightarrow>
     (case createAAD P videoId chunkIndex of Inl e \<Rightarrow> Inl e | Inr aad \<Rightarrow>
        let sealed = gcm_encrypt P videoKey nonce aad plaintext
        in Inr \<lparr>index = chunkIndex, iv = nonce, tag = snd sealed,
                 ciphertext = fst sealed\<rparr>)))))"

definition decryptChunk ::
  "primitives \<Rightarrow> EncryptedChunk \<Rightarrow> buffer \<Rightarrow> jsstring \<Rightarrow> error + buffer" where
  "decryptChunk P encryptedChunk videoKey videoId =
     (case validateMasterKey videoKey of Inl e \<Rightarrow> Inl e | Inr _ \<Rightarrow>
     (case validateVideoId videoId of Inl e \<Rightarrow> Inl e | Inr _ \<Rightarrow>
     (case createAAD P videoId (index encryptedChunk) of Inl e \<Rightarrow> Inl e | Inr aad \<Rightarrow>
        if iv encryptedChunk = [] then Inl InvalidIV
        else if length (tag encryptedChunk) \<noteq> AUTH_TAG_LENGTH then Inl InvalidAuthTag
        else (case gcm_decrypt P videoKey (iv encryptedChunk) aad
                     (ciphertext encryptedChunk) (tag encryptedChunk) of
                None \<Rightarrow> Inl (AuthenticationFailed (index encryptedChunk))
              | Some plaintext \<Rightarrow> Inr plaintext))))"

subsection \<open>Transform streams\<close>

text \<open>
  A Node \<open>Transform\<close> in object mode calls \<open>_transform\<close> once per written value, in
  the order of the writes, and \<open>_flush\<close> once after the last.  A call is modelled by
  the state it leaves, the values it pushed, and the error it handed to its callback, if
  any; values pushed before the error have already gone downstream.  An error destroys
  the stream: \<open>feed\<close> stops there.
\<close>

type_synonym ('s, 'o) step = "'s \<times> 'o list \<times> error option"

fun feed :: "('s \<Rightarrow> 'i \<Rightarrow> ('s, 'o) step) \<Rightarrow> 's \<Rightarrow> 'i list \<Rightarrow> ('s, 'o) step" where
  "feed f s [] = (s, [], None)"
| "feed f s (x # xs) =
     (case f s x of
        (s1, out, Some e) \<Rightarrow> (s1, out, Some e)
      | (s1, out, None) \<Rightarrow> (case feed f s1 xs of (s2, out2, err) \<Rightarrow> (s2, out @ out2, err)))"

subsection \<open>\<open>core/encryption-stream.js\<close>\<close>

record EncryptionStream =
  enc_videoKey :: buffer
  enc_videoId :: jsstring
  chunkSize :: nat
  enc_buffer :: buffer
  chunkIndex :: nat
  enc_bytesProcessed :: nat

text \<open>
  The constructor: \<open>options.chunkSize || CONFIG.CHUNK_SIZE\<close>, where \<open>undefined\<close>
  (\<open>None\<close>) and \<open>0\<close> are falsy.
\<close>

definition chunkSize_or_default :: "nat option \<Rightarrow> nat" where
  "chunkSize_or_default opt =
     (case opt of None \<Rightarrow> CHUNK_SIZE | Some n \<Rightarrow> if n = 0 then CHUNK_SIZE else n)"

definition new_EncryptionStream :: "buffer \<Rightarrow> jsstring \<Rightarrow> nat option \<Rightarrow> EncryptionStream" where
  "new_EncryptionStream videoKey videoId opt =
     \<lparr>enc_videoKey = videoKey, enc_videoId = videoId, chunkSize = chunkSize_or_default opt,
      enc_buffer = [], chunkIndex = 0, enc_bytesProcessed = 0\<rparr>"

text \<open>
  The \<open>while\<close> loop of \<open>_transform\<close>.  \<open>rnd i\<close> is the nonce drawn for the frame of
  index \<open>i\<close>.  A \<open>throw\<close> of \<open>encryptChunk\<close> leaves the loop with the buffer already
  cut.
\<close>

function EncryptionStream_loop ::
  "primitives \<Rightarrow> (nat \<Rightarrow> buffer) \<Rightarrow> EncryptionStream \<Rightarrow> EncryptedChunk list
     \<Rightarrow> (EncryptionStream, EncryptedChunk) step" where
  "EncryptionStream_loop P rnd s out =
     (if length (enc_buffer s) \<ge> chunkSize s then
        (case encryptChunk P (rnd (chunkIndex s)) (slice_buf 0 (chunkSize s) (enc_buffer s))
                (enc_videoKey s) (enc_videoId s) (chunkIndex s) of
           Inl e \<Rightarrow> (s\<lparr>enc_buffer := drop (chunkSize s) (enc_buffer s)\<rparr>, out, Some e)
         | Inr encryptedChunk \<Rightarrow>
             EncryptionStream_loop P rnd
               (s\<lparr>enc_buffer := drop (chunkSize s) (enc_buffer s),
                  chunkIndex := chunkIndex s + 1,
                  enc_bytesProcessed := enc_bytesProcessed s
                     + length (slice_buf 0 (chunkSize s) (enc_buffer s))\<rparr>)
               (out @ [encryptedChunk]))
      else (s, out, None))"
  by pat_completeness auto
termination
proof (relation "measure (\<lambda>(P, rnd, s, out). length (enc_buffer s))")
  show "wf (measure (\<lambda>(P, rnd, s, out). length (enc_buffer s)))" by simp
next
  fix P :: primitives and rnd :: "nat \<Rightarrow> buffer" and s :: EncryptionStream
    and out :: "EncryptedChunk list" and c :: EncryptedChunk
  assume "chunkSize s \<le> length (enc_buffer s)"
    and ok: "encryptChunk P (rnd (chunkIndex s)) (slice_buf 0 (chunkSize s) (enc_buffer s))
               (enc_videoKey s) (enc_videoId s) (chunkIndex s) = Inr c"
  have "slice_buf 0 (chunkSize s) (enc_buffer s) \<noteq> []"
    using ok by (auto simp: encryptChunk_def validateBuffer_def split: if_splits)
  then have "0 < chunkSize s" and "enc_buffer s \<noteq> []"
    by (auto simp: slice_buf_def)
  then show "((P, rnd,
        s\<lparr>enc_buffer := drop (chunkSize s) (enc_buffer s), chunkIndex := chunkIndex s + 1,
          enc_bytesProcessed := enc_bytesProcessed s
             + length (slice_buf 0 (chunkSize s) (enc_buffer s))\<rparr>,
        out @ [c]), (P, rnd, s, out)) \<in> measure (\<lambda>(P, rnd, s, out). length (enc_buffer s))"
    by simp
qed

definition EncryptionStream_transform ::
  "primitives \<Rightarrow> (nat \<Rightarrow> buffer) \<Rightarrow> EncryptionStream \<Rightarrow> buffer
     \<Rightarrow> (EncryptionStream, EncryptedChunk) step" where
  "EncryptionStream_transform P rnd s chunk =
     EncryptionStream_loop P rnd (s\<lparr>enc_buffer := enc_buffer s @ chunk\<rparr>) []"

definition EncryptionStream_flush ::
  "primitives \<Rightarrow> (nat \<Rightarrow> buffer) \<Rightarrow> EncryptionStream \<Rightarrow> (EncryptionStream, EncryptedChunk) step" where
  "EncryptionStream_flush P rnd s =
     (if length (enc_buffer s) > 0 then
        (case encryptChunk P (rnd (chunkIndex s)) (enc_buffer s)
                (enc_videoKey s) (enc_videoId s) (chunkIndex s) of
           Inl e \<Rightarrow> (s, [], Some e)
         | Inr encryptedChunk \<Rightarrow>
             (s\<lparr>chunkIndex := chunkIndex s + 1,
                enc_bytesProcessed := enc_bytesProcessed s + length (enc_buffer s),
                enc_buffer := []\<rparr>, [encryptedChunk], None))
      else (s, [], None))"

text \<open>
  The framer as a whole: the blocks are written one after the other, then the stream is
  ended.  The result is the frames pushed and the error that stopped the stream, if any.
\<close>

definition EncryptionStream_run ::
  "primitives \<Rightarrow> (nat \<Rightarrow> buffer) \<Rightarrow> buffer \<Rightarrow> jsstring \<Rightarrow> nat option \<Rightarrow> buffer list
     \<Rightarrow> EncryptedChunk list \<times> error option" where
  "EncryptionStream_run P rnd videoKey videoId opt blocks =
     (case feed (EncryptionStream_transform P rnd)
             (new_EncryptionStream videoKey videoId opt) blocks of
        (s1, out1, Some e) \<Rightarrow> (out1, Some e)
      | (s1, out1, None) \<Rightarrow>
          (case EncryptionStream_flush P rnd s1 of (s2, out2, err) \<Rightarrow> (out1 @ out2, err)))"

text \<open>\<open>ChunkSerializationStream._transform\<close>: it keeps no state.\<close>

definition ChunkSerializationStream_transform :: "unit \<Rightarrow> EncryptedChunk \<Rightarrow> (unit, buffer) step" where
  "ChunkSerializationStream_transform u encryptedChunk =
     (case toBuffer encryptedChunk of
        Inl e \<Rightarrow> (u, [], Some e)
      | Inr b \<Rightarrow> (u, [b], None))"

subsection \<open>\<open>core/decryption-stream.js\<close>\<close>

text \<open>
  The sources hold two classes \<open>ChunkDeserializationStream\<close>.  The first parses what it
  has buffered as one frame (it "assumes that each write holds a whole chunk"); the
  second reads records, each a four-byte big-endian length followed by that many bytes.
  The state of both is the buffer.  The stream tests of the repository write the four
  bytes \<open>00 00 00 0A\<close>, end the stream and expect the error "Buffer contem ... bytes nao
  processados": only the second class raises it, so the second is the class that
  \<open>decryption-stream.js\<close> exports and that \<open>decryptBuffer\<close> builds.  The first is kept
  under the names \<open>framewise_...\<close>.
\<close>

definition minChunkSize :: nat where
  "minChunkSize = HEADER_TOTAL_SIZE + 1"

text \<open>First class: an error of \<open>fromBuffer\<close> is caught inside the loop and ends it.\<close>

function framewise_loop :: "buffer \<Rightarrow> EncryptedChunk list \<Rightarrow> (buffer, EncryptedChunk) step" where
  "framewise_loop buf out =
     (if length buf \<ge> minChunkSize then
        (case fromBuffer buf of
           Inl e \<Rightarrow> (buf, out, None)
         | Inr encryptedChunk \<Rightarrow>
             framewise_loop (drop (size_chunk encryptedChunk) buf) (out @ [encryptedChunk]))
      else (buf, out, None))"
  by pat_completeness auto
termination
  by (relation "measure (\<lambda>(buf, out). length buf)")
     (auto simp: minChunkSize_def size_chunk_def HEADER_TOTAL_SIZE_def)

definition framewise_transform :: "buffer \<Rightarrow> buffer \<Rightarrow> (buffer, EncryptedChunk) step" where
  "framewise_transform buf chunk = framewise_loop (buf @ chunk) []"

definition framewise_flush :: "buffer \<Rightarrow> error option" where
  "framewise_flush buf = (if length buf > 0 then Some UnprocessedData else None)"

text \<open>
  Second class: \<open>fromBuffer\<close> is called after the record has been cut off the buffer, and
  its error goes to the callback.
\<close>

function prefixed_loop :: "buffer \<Rightarrow> EncryptedChunk list \<Rightarrow> (buffer, EncryptedChunk) step" where
  "prefixed_loop buf out =
     (if length buf \<ge> 4 then
        (case readUInt32BE buf of
           Inl e \<Rightarrow> (buf, out, Some e)
         | Inr chunk_size \<Rightarrow>
             if length buf < 4 + chunk_size then (buf, out, None)
             else (case fromBuffer (slice_buf 4 (4 + chunk_size) buf) of
                     Inl e \<Rightarrow> (drop (4 + chunk_size) buf, out, Some e)
                   | Inr encryptedChunk \<Rightarrow>
                       prefixed_loop (drop (4 + chunk_size) buf) (out @ [encryptedChunk])))
      else (buf, out, None))"
  by pat_completeness auto
termination
  by (relation "measure (\<lambda>(buf, out). length buf)") auto

definition prefixed_transform :: "buffer \<Rightarrow> buffer \<Rightarrow> (buffer, EncryptedChunk) step" where
  "prefixed_transform buf chunk = prefixed_loop (buf @ chunk) []"

definition prefixed_flush :: "buffer \<Rightarrow> error option" where
  "prefixed_flush buf = (if length buf > 0 then Some (UnprocessedBytes (length buf)) else None)"

text \<open>\<open>DecryptionStream\<close>; \<open>errors\<close> records the index of the failing frame.\<close>

record DecryptionStream =
  dec_videoKey :: buffer
  dec_videoId :: jsstring
  chunksProcessed :: nat
  dec_bytesProcessed :: nat
  errors :: "(nat \<times> error) list"

definition new_DecryptionStream :: "buffer \<Rightarrow> jsstring \<Rightarrow> DecryptionStream" where
  "new_DecryptionStream videoKey videoId =
     \<lparr>dec_videoKey = videoKey, dec_videoId = videoId, chunksProcessed = 0,
      dec_bytesProcessed = 0, errors = []\<rparr>"

definition DecryptionStream_transform ::
  "primitives \<Rightarrow> DecryptionStream \<Rightarrow> EncryptedChunk \<Rightarrow> (DecryptionStream, buffer) step" where
  "DecryptionStream_transform P s encryptedChunk =
     (case decryptChunk P encryptedChunk (dec_videoKey s) (dec_videoId s) of
        Inl e \<Rightarrow> (s\<lparr>errors := errors s @ [(index encryptedChunk, e)]\<rparr>, [], Some e)
      | Inr plaintext \<Rightarrow>
          (s\<lparr>chunksProcessed := chunksProcessed s + 1,
             dec_bytesProcessed := dec_bytesProcessed s + length plaintext\<rparr>,
           [plaintext], None))"

text \<open>
  The decrypt framer on a sequence of frames: the plaintexts pushed, in order, and the
  error that stopped it, if any.
\<close>

definition DecryptionStream_run ::
  "primitives \<Rightarrow> buffer \<Rightarrow> jsstring \<Rightarrow> EncryptedChunk list \<Rightarrow> buffer list \<times> error option" where
  "DecryptionStream_run P videoKey videoId frames =
     (case feed (DecryptionStream_transform P) (new_DecryptionStream videoKey videoId) frames of
        (s, out, err) \<Rightarrow> (out, err))"

subsection \<open>\<open>core/file-crypto.js\<close>: \<open>encryptBuffer\<close> and \<open>decryptBuffer\<close>\<close>

text \<open>
  \<open>encryptBuffer\<close> writes \<open>data\<close> once and ends the stream; the promise resolves with
  the buffers the serialization stream pushed, and rejects on the first error.
\<close>

definition encryptBuffer ::
  "primitives \<Rightarrow> (nat \<Rightarrow> buffer) \<Rightarrow> buffer \<Rightarrow> buffer \<Rightarrow> jsstring \<Rightarrow> nat option
     \<Rightarrow> error + buffer list" where
  "encryptBuffer P rnd data masterKey videoId opt =
     (case deriveVideoKey P masterKey videoId of
        Inl e \<Rightarrow> Inl e
      | Inr videoKey \<Rightarrow>
          (case EncryptionStream_run P rnd videoKey videoId opt [data] of
             (frames, Some e) \<Rightarrow> Inl e
           | (frames, None) \<Rightarrow>
               (case feed ChunkSerializationStream_transform () frames of
                  (u, chunks, Some e) \<Rightarrow> Inl e
                | (u, chunks, None) \<Rightarrow> Inr chunks)))"


section \<open>Notions used to state the framer's behaviour\<close>

text \<open>
  \<open>sealed_frame\<close> is the frame \<open>encryptChunk\<close> builds from a plaintext, an index and
  the nonce drawn for it; \<open>seal_from k\<close> seals a list of plaintexts with the indices
  \<open>k, k + 1, ...\<close>.  \<open>full_chunks F D\<close> are the consecutive F-byte pieces of \<open>D\<close>, and
  \<open>all_chunks F D\<close> adds what is left after them, if anything.  \<open>framer_state\<close> holds
  of a stream configured with a key, an object id and a frame size.
\<close>

definition sealed_frame ::
  "primitives \<Rightarrow> (nat \<Rightarrow> buffer) \<Rightarrow> buffer \<Rightarrow> jsstring \<Rightarrow> nat \<Rightarrow> buffer \<Rightarrow> EncryptedChunk" where
  "sealed_frame P rnd K vid i pt =
     \<lparr>index = i, iv = rnd i,
      tag = snd (gcm_encrypt P K (rnd i) (sha256 P (utf8 vid @ uint32_be i)) pt),
      ciphertext = fst (gcm_encrypt P K (rnd i) (sha256 P (utf8 vid @ uint32_be i)) pt)\<rparr>"

fun seal_from ::
  "primitives \<Rightarrow> (nat \<Rightarrow> buffer) \<Rightarrow> buffer \<Rightarrow> jsstring \<Rightarrow> nat \<Rightarrow> buffer list
     \<Rightarrow> EncryptedChunk list" where
  "seal_from P rnd K vid k [] = []"
| "seal_from P rnd K vid k (pt # pts) =
     sealed_frame P rnd K vid k pt # seal_from P rnd K vid (Suc k) pts"

definition full_chunks :: "nat \<Rightarrow> buffer \<Rightarrow> buffer list" where
  "full_chunks F D = map (\<lambda>j. take F (drop (j * F) D)) [0..<length D div F]"

definition all_chunks :: "nat \<Rightarrow> buffer \<Rightarrow> buffer list" where
  "all_chunks F D =
     full_chunks F D @
       (if drop (length D div F * F) D = [] then [] else [drop (length D div F * F) D])"

definition framer_state :: "EncryptionStream \<Rightarrow> buffer \<Rightarrow> jsstring \<Rightarrow> nat \<Rightarrow> bool" where
  "framer_state s K vid F = (enc_videoKey s = K \<and> enc_videoId s = vid \<and> chunkSize s = F)"


text \<open>
  \<open>serialized c\<close> is the buffer \<open>toBuffer\<close> gives for a frame whose index fits 32
  bits; \<open>wire_frame\<close> holds of the frames that \<open>encryptChunk\<close> produces: a 32-bit
  index, a 12-byte nonce, a 16-byte tag and at least one byte of ciphertext.
\<close>

definition serialized :: "EncryptedChunk \<Rightarrow> buffer" where
  "serialized c = uint32_be (index c) @ iv c @ tag c @ ciphertext c"

definition wire_frame :: "EncryptedChunk \<Rightarrow> bool" where
  "wire_frame c = (index c < 4294967296 \<and> length (iv c) = 12 \<and> length (tag c) = 16
                   \<and> ciphertext c \<noteq> [])"

section \<open>Fixtures\<close>

text \<open>
  Concrete values on which the theorems below are instantiated: string literals as code
  units, a master key of 32 distinct bytes, and an instance of the primitives that is
  small enough to evaluate.  In the instance the tag is the first 16 bytes of the
  associated data added bytewise to those of the key, and opening checks it.
\<close>

definition js :: "string \<Rightarrow> jsstring" where
  "js s = map (\<lambda>c. of_nat (of_char c)) s"

definition byte_ramp :: buffer where
  "byte_ramp = [0, 1, 2, 3, 4, 5, 6, 7, 8, 9, 10, 11, 12, 13, 14, 15, 16, 17, 18, 19, 20, 21,
     22, 23, 24, 25, 26, 27, 28, 29, 30, 31]"

definition pad_to :: "nat \<Rightarrow> buffer \<Rightarrow> buffer" where
  "pad_to n x = take n (x @ replicate n 0)"

definition demo_tag :: "buffer \<Rightarrow> buffer \<Rightarrow> buffer" where
  "demo_tag key aad = map (\<lambda>(x, y). x + y) (zip (pad_to 16 aad) (pad_to 16 key))"

definition demo_primitives :: primitives where
  "demo_primitives =
     \<lparr>sha256 = pad_to 32,
      hmac_sha256 = (\<lambda>key msg. map (\<lambda>b. b + of_nat (length key + length msg)) byte_ramp),
      gcm_encrypt = (\<lambda>key nonce aad pt. (map (\<lambda>b. b + 1) pt, demo_tag key aad)),
      gcm_decrypt = (\<lambda>key nonce aad ct tg.
         if tg = demo_tag key aad then Some (map (\<lambda>b. b - 1) ct) else None)\<rparr>"

definition hex65 :: jsstring where
  "hex65 = js ''000102030405060708090a0b0c0d0e0f101112131415161718191a1b1c1d1e1f0''"

definition demo_nonce :: "nat \<Rightarrow> buffer" where
  "demo_nonce i = replicate 12 (of_nat i)"

definition frame_a :: EncryptedChunk where
  "frame_a = \<lparr>index = 0, iv = demo_nonce 0,
     tag = demo_tag byte_ramp (pad_to 32 (utf8 (js ''video-1'') @ uint32_be 0)),
     ciphertext = [0x42]\<rparr>"

definition frame_b :: EncryptedChunk where
  "frame_b = \<lparr>index = 1, iv = demo_nonce 1,
     tag = demo_tag byte_ramp (pad_to 32 (utf8 (js ''video-1'') @ uint32_be 1)),
     ciphertext = [0x43]\<rparr>"


section \<open>Assumptions on the primitives\<close>

text \<open>
  What the theorems about encryption need of AES-256-GCM, for a 32-byte key and a
  12-byte nonce: the ciphertext is as long as the plaintext, the tag is 16 bytes long,
  and opening what was sealed, under the same key, nonce and associated data, gives the
  plaintext back.
\<close>

definition aead_correct :: "primitives \<Rightarrow> bool" where
  "aead_correct P =
     (\<forall>key nonce aad pt. length key = 32 \<and> length nonce = 12 \<longrightarrow>
        length (fst (gcm_encrypt P key nonce aad pt)) = length pt
        \<and> length (snd (gcm_encrypt P key nonce aad pt)) = 16
        \<and> gcm_decrypt P key nonce aad (fst (gcm_encrypt P key nonce aad pt))
              (snd (gcm_encrypt P key nonce aad pt)) = Some pt)"

section \<open>Frame serialization\<close>

lemma be_arith:
  fixes v :: nat
  assumes "v < 4294967296"
  shows "(v div 16777216) mod 256 * 16777216 + (v div 65536) mod 256 * 65536
           + (v div 256) mod 256 * 256 + v mod 256 = v"
proof -
  have a: "v mod (256 * 256) = 256 * (v div 256 mod 256) + v mod 256"
    by (rule mod_mult2_eq)
  have b: "v mod (65536 * 256) = 65536 * (v div 65536 mod 256) + v mod 65536"
    by (rule mod_mult2_eq)
  have c: "v mod (16777216 * 256) = 16777216 * (v div 16777216 mod 256) + v mod 16777216"
    by (rule mod_mult2_eq)
  have "v mod (16777216 * 256) = v" using assms by simp
  with a b c show ?thesis by simp
qed

lemma length_uint32_be: "length (uint32_be v) = 4"
  by (simp add: uint32_be_def)

lemma readUInt32BE_uint32_be:
  "v < 4294967296 \<Longrightarrow> readUInt32BE (uint32_be v @ rest) = Inr v"
  using be_arith [of v] by (simp add: uint32_be_def unat_of_nat)

lemma fromBuffer_layout:
  assumes "v < 4294967296" and "length n = 12" and "length t = 16"
  shows "fromBuffer (uint32_be v @ n @ t @ ct)
           = Inr \<lparr>index = v, iv = n, tag = t, ciphertext = ct\<rparr>"
proof -
  let ?buf = "uint32_be v @ n @ t @ ct"
  have len: "\<not> length ?buf < HEADER_TOTAL_SIZE"
    using assms by (simp add: HEADER_TOTAL_SIZE_def length_uint32_be)
  have rd: "readUInt32BE ?buf = Inr v"
    using assms(1) by (rule readUInt32BE_uint32_be)
  have s1: "slice_buf 4 16 ?buf = n"
    using assms by (simp add: slice_buf_def length_uint32_be)
  have s2: "slice_buf 16 32 ?buf = t"
    using assms by (simp add: slice_buf_def length_uint32_be)
  have s3: "drop 32 ?buf = ct"
    using assms by (simp add: length_uint32_be)
  show ?thesis
    unfolding fromBuffer_def using len rd s1 s2 s3 by simp
qed

text \<open>
  Claim C5.  A frame with a 32-bit index, a 12-byte nonce, a 16-byte tag and an N-byte
  ciphertext serializes to exactly 32 + N bytes: the four big-endian index bytes, the
  nonce, the tag, the ciphertext, in this order; and deserializing that buffer gives the
  frame back.
\<close>

theorem toBuffer_fromBuffer_roundtrip:
  assumes "index c < 4294967296" and "length (iv c) = 12" and "length (tag c) = 16"
  shows "\<exists>buf. toBuffer c = Inr buf
           \<and> length buf = 32 + length (ciphertext c)
           \<and> take 4 buf = uint32_be (index c)
           \<and> take 12 (drop 4 buf) = iv c
           \<and> take 16 (drop 16 buf) = tag c
           \<and> drop 32 buf = ciphertext c
           \<and> fromBuffer buf = Inr c"
proof -
  let ?buf = "uint32_be (index c) @ iv c @ tag c @ ciphertext c"
  have tb: "toBuffer c = Inr ?buf"
    using assms(1) by (simp add: toBuffer_def writeUInt32BE_def)
  have fb: "fromBuffer ?buf = Inr c"
    using fromBuffer_layout [OF assms, of "ciphertext c"] by simp
  have "length ?buf = 32 + length (ciphertext c)"
    using assms by (simp add: length_uint32_be)
  moreover have "take 4 ?buf = uint32_be (index c)"
    by (simp add: length_uint32_be)
  moreover have "take 12 (drop 4 ?buf) = iv c"
    using assms by (simp add: length_uint32_be)
  moreover have "take 16 (drop 16 ?buf) = tag c"
    using assms by (simp add: length_uint32_be)
  moreover have "drop 32 ?buf = ciphertext c"
    using assms by (simp add: length_uint32_be)
  ultimately show ?thesis using tb fb by simp
qed


theorem toBuffer_fromBuffer_roundtrip_witness:
  "\<exists>buf. toBuffer \<lparr>index = 5, iv = replicate 12 1, tag = replicate 16 2,
                    ciphertext = [9, 8, 7]\<rparr> = Inr buf
     \<and> length buf = 35
     \<and> take 4 buf = [0, 0, 0, 5]
     \<and> take 12 (drop 4 buf) = replicate 12 1
     \<and> take 16 (drop 16 buf) = replicate 16 2
     \<and> drop 32 buf = [9, 8, 7]
     \<and> fromBuffer buf = Inr \<lparr>index = 5, iv = replicate 12 1, tag = replicate 16 2,
                             ciphertext = [9, 8, 7]\<rparr>"
  using toBuffer_fromBuffer_roundtrip
    [of "\<lparr>index = 5, iv = replicate 12 1, tag = replicate 16 2, ciphertext = [9, 8, 7]\<rparr>"]
  by (simp add: uint32_be_def)

text \<open>
  Claim C7, as the code has it.  \<open>fromBuffer\<close> compares the length with the header
  size, 32: every buffer of fewer than 32 bytes is rejected, and every buffer of at least
  32 bytes is accepted, its ciphertext being what follows the header (nothing, for a
  buffer of exactly 32 bytes).
\<close>

theorem fromBuffer_rejects_below_header_size:
  "(length buf < 32 \<longrightarrow> fromBuffer buf = Inl BufferTooSmall)
   \<and> (32 \<le> length buf \<longrightarrow> (\<exists>c. fromBuffer buf = Inr c \<and> ciphertext c = drop 32 buf))"
proof (intro conjI impI)
  assume "length buf < 32"
  then show "fromBuffer buf = Inl BufferTooSmall"
    by (simp add: fromBuffer_def HEADER_TOTAL_SIZE_def)
next
  assume len: "32 \<le> length buf"
  then obtain a b c d rest where "buf = a # b # c # d # rest"
    by (cases buf rule: readUInt32BE.cases) auto
  then show "\<exists>c. fromBuffer buf = Inr c \<and> ciphertext c = drop 32 buf"
    using len by (simp add: fromBuffer_def HEADER_TOTAL_SIZE_def)
qed

theorem fromBuffer_rejects_below_header_size_witness:
  "fromBuffer (replicate 31 7) = Inl BufferTooSmall
   \<and> (\<exists>c. fromBuffer (replicate 40 7) = Inr c \<and> ciphertext c = drop 32 (replicate 40 7))"
  using fromBuffer_rejects_below_header_size [of "replicate 31 7"]
    fromBuffer_rejects_below_header_size [of "replicate 40 7"]
  by simp

lemma replicate_32_layout:
  "replicate 32 (0 :: byte) = uint32_be 0 @ replicate 12 0 @ replicate 16 0"
proof -
  have "uint32_be 0 = replicate 4 0"
    by (simp add: uint32_be_def) code_simp
  then show ?thesis
    by (simp add: replicate_add [symmetric])
qed

text \<open>
  Claim C7 as stated fails on a buffer of 32 zero bytes: it is shorter than 33 bytes and
  \<open>fromBuffer\<close> returns a frame with an empty ciphertext.
\<close>

theorem fromBuffer_accepts_32_bytes:
  "length (replicate 32 (0 :: byte)) < 33
   \<and> fromBuffer (replicate 32 0)
       = Inr \<lparr>index = 0, iv = replicate 12 0, tag = replicate 16 0, ciphertext = []\<rparr>"
proof -
  have "fromBuffer (uint32_be 0 @ replicate 12 0 @ replicate 16 0)
          = Inr \<lparr>index = 0, iv = replicate 12 0, tag = replicate 16 0, ciphertext = []\<rparr>"
    using fromBuffer_layout [of 0 "replicate 12 0" "replicate 16 0" "[]"] by simp
  then show ?thesis
    by (simp add: replicate_32_layout [symmetric])
qed

section \<open>Validation\<close>

lemma validateMasterKey_byte_ramp: "validateMasterKey byte_ramp = Inr ()"
  by (simp add: validateMasterKey_def byte_ramp_def KEY_LENGTH_def)

lemma validateVideoId_iff:
  "validateVideoId s = Inr () \<longleftrightarrow> s \<noteq> [] \<and> length s \<le> 255 \<and> list_all id_char s"
  by (auto simp: validateVideoId_def MIN_VIDEO_ID_LENGTH_def MAX_VIDEO_ID_LENGTH_def
      VIDEO_ID_PATTERN_test_def)

lemma validateVideoId_video1: "validateVideoId (js ''video-1'') = Inr ()"
  by (simp add: validateVideoId_iff js_def id_char_def)

lemma id_char_ascii: "id_char u \<Longrightarrow> u < 0x80"
  by (auto simp: id_char_def word_le_nat_alt word_less_nat_alt)

lemma lone_unit_ascii: "u < 0x80 \<Longrightarrow> lone_unit u = unat u"
  by (auto simp: lone_unit_def is_high_surrogate_def is_low_surrogate_def
      word_le_nat_alt word_less_nat_alt)

lemma utf8_ascii: "list_all (\<lambda>u. u < 0x80) s \<Longrightarrow> utf8 s = map ucast s"
proof (induction s rule: code_points.induct)
  case 1
  then show ?case by (simp add: utf8_def)
next
  case (2 u)
  then have "unat u < 128" by (simp add: word_less_nat_alt)
  with 2 show ?case by (simp add: utf8_def lone_unit_ascii utf8_code_point_def)
next
  case (3 u v rest)
  then have u: "u < 0x80" and r: "list_all (\<lambda>u. u < 0x80) (v # rest)" by simp_all
  have nh: "\<not> is_high_surrogate u"
    using u by (auto simp: is_high_surrogate_def word_le_nat_alt word_less_nat_alt)
  have un: "unat u < 128" using u by (simp add: word_less_nat_alt)
  have "utf8 (v # rest) = map ucast (v # rest)" using 3 nh r by simp
  then show ?case using nh un u
    by (simp add: utf8_def lone_unit_ascii utf8_code_point_def)
qed

lemma utf8_id_chars: "list_all id_char s \<Longrightarrow> utf8 s = map ucast s"
  by (rule utf8_ascii) (auto simp: list_all_iff dest: id_char_ascii)

text \<open>
  Claim C9, as the code has it.  \<open>validateVideoId\<close> accepts exactly the strings that
  are non-empty, at most 255 code units long (\<open>MAX_VIDEO_ID_LENGTH\<close>) and made of the
  characters \<open>A-Z a-z 0-9 . _ : -\<close> only; every other string raises a
  \<open>ValidationError\<close> on the field \<open>videoId\<close>.  A string of these characters is as
  many bytes in UTF-8 as it has code units, so the bound is 255 bytes.
\<close>

theorem validateVideoId_accepts_iff:
  "(validateVideoId s = Inr () \<longleftrightarrow> s \<noteq> [] \<and> length s \<le> 255 \<and> list_all id_char s)
   \<and> (validateVideoId s \<noteq> Inr () \<longrightarrow> validateVideoId s = Inl (ValidationError ''videoId''))
   \<and> (list_all id_char s \<longrightarrow> length (utf8 s) = length s)"
proof (intro conjI impI)
  show "validateVideoId s = Inr () \<longleftrightarrow> s \<noteq> [] \<and> length s \<le> 255 \<and> list_all id_char s"
    by (rule validateVideoId_iff)
next
  assume "validateVideoId s \<noteq> Inr ()"
  then show "validateVideoId s = Inl (ValidationError ''videoId'')"
    by (simp add: validateVideoId_def split: if_splits)
next
  assume "list_all id_char s"
  then show "length (utf8 s) = length s" by (simp add: utf8_id_chars)
qed

theorem validateVideoId_accepts_iff_witness:
  "validateVideoId (js ''video-1'') = Inr ()
   \<and> length (utf8 (js ''video-1'')) = length (js ''video-1'')
   \<and> validateVideoId (js ''bad id'') = Inl (ValidationError ''videoId'')"
proof -
  have chars: "list_all id_char (js ''video-1'')"
    by (simp add: js_def id_char_def)
  have ok: "validateVideoId (js ''video-1'') = Inr ()"
    using validateVideoId_accepts_iff [of "js ''video-1''", THEN conjunct1] chars
    by (simp add: js_def)
  have bad: "validateVideoId (js ''bad id'') \<noteq> Inr ()"
    using validateVideoId_accepts_iff [of "js ''bad id''", THEN conjunct1]
    by (simp add: js_def id_char_def)
  have len: "length (utf8 (js ''video-1'')) = length (js ''video-1'')"
    using validateVideoId_accepts_iff [of "js ''video-1''", THEN conjunct2, THEN conjunct2] chars
    by blast
  have rej: "validateVideoId (js ''bad id'') = Inl (ValidationError ''videoId'')"
    using validateVideoId_accepts_iff [of "js ''bad id''", THEN conjunct2, THEN conjunct1] bad
    by blast
  show ?thesis using ok len rej by blast
qed

lemma id_char_a: "id_char 0x61"
  by (simp add: id_char_def)

text \<open>
  Claim C9 as stated fails on the identifier made of 256 letters \<open>a\<close>: it is 256 bytes
  long in UTF-8 and matches the pattern, and \<open>validateVideoId\<close> rejects it.
\<close>

theorem validateVideoId_rejects_256:
  "length (utf8 (replicate 256 0x61)) = 256
   \<and> VIDEO_ID_PATTERN_test (replicate 256 0x61)
   \<and> validateVideoId (replicate 256 0x61) = Inl (ValidationError ''videoId'')"
proof -
  have all: "list_all id_char (replicate 256 0x61)"
    by (simp add: list_all_iff id_char_a)
  then have "utf8 (replicate 256 0x61) = map ucast (replicate 256 (0x61 :: 16 word))"
    by (rule utf8_id_chars)
  then have "length (utf8 (replicate 256 0x61)) = 256" by simp
  moreover have "VIDEO_ID_PATTERN_test (replicate 256 0x61)"
    using all by (simp add: VIDEO_ID_PATTERN_test_def)
  moreover have "validateVideoId (replicate 256 0x61) = Inl (ValidationError ''videoId'')"
    by (simp add: validateVideoId_def MIN_VIDEO_ID_LENGTH_def MAX_VIDEO_ID_LENGTH_def)
  ultimately show ?thesis by simp
qed

section \<open>Key derivation and import\<close>

text \<open>
  Claim C3.  For a valid master key and a valid object id, \<open>deriveVideoKey\<close> returns the
  first 32 bytes of HMAC-SHA-256 keyed with \<open>prk\<close> over the info string followed by the
  byte 1, where \<open>prk\<close> is HMAC-SHA-256 keyed with the SHA-256 of the id's UTF-8 bytes over
  the master key.  The result is a function of the key and the id alone.
\<close>

theorem deriveVideoKey_hkdf:
  assumes "validateMasterKey M = Inr ()" and "validateVideoId vid = Inr ()"
  shows "deriveVideoKey P M vid =
           Inr (take 32 (hmac_sha256 P (hmac_sha256 P (sha256 P (utf8 vid)) M)
                  (map (\<lambda>c. of_nat (of_char c)) ''@kitsuneislife/keyring-vcm-v1'' @ [0x01])))"
  using assms by (simp add: deriveVideoKey_def slice_buf_def KEY_LENGTH_def HKDF_INFO_def)

theorem deriveVideoKey_hkdf_witness:
  "deriveVideoKey demo_primitives byte_ramp (js ''video-1'') =
     Inr (take 32 (hmac_sha256 demo_primitives
            (hmac_sha256 demo_primitives (sha256 demo_primitives (utf8 (js ''video-1'')))
               byte_ramp)
            (map (\<lambda>c. of_nat (of_char c)) ''@kitsuneislife/keyring-vcm-v1'' @ [0x01])))"
  using deriveVideoKey_hkdf [OF validateMasterKey_byte_ramp validateVideoId_video1] .

text \<open>
  Claim C10 on the code.  The string \<open>hex65\<close> is 65 hexadecimal digits long, an odd
  length, and \<open>importMasterKey\<close> accepts it: \<open>Buffer.from\<close> drops the last digit and the
  32 bytes decoded from the first 64 pass \<open>validateMasterKey\<close>.
\<close>

theorem importMasterKey_accepts_odd_length:
  "odd (length hex65) \<and> importMasterKey hex65 = Inr byte_ramp"
  by (simp add: hex65_def js_def importMasterKey_def hex_digit_def validateMasterKey_def
      KEY_LENGTH_def byte_ramp_def)

text \<open>
  The other strings of odd length are rejected: an accepted string has 64 or 65
  characters.
\<close>

lemma length_hex_decode:
  "list_all (\<lambda>u. hex_digit u \<noteq> None) s \<Longrightarrow> length (hex_decode s) = length s div 2"
  by (induction s rule: hex_decode.induct) auto

lemma importMasterKey_length:
  assumes "importMasterKey s = Inr k"
  shows "length s = 64 \<or> length s = 65"
proof -
  have hexs: "list_all (\<lambda>u. hex_digit u \<noteq> None) s"
    and v: "validateMasterKey (hex_decode s) = Inr ()"
    using assms by (auto simp: importMasterKey_def Let_def split: if_splits sum.splits)
  have "length (hex_decode s) = 32"
    using v by (simp add: validateMasterKey_def KEY_LENGTH_def split: if_splits)
  then have "length s div 2 = 32" using length_hex_decode [OF hexs] by simp
  then show ?thesis by presburger
qed

section \<open>Associated data\<close>

text \<open>
  Claim C6.  For a valid object id and an index of at most \<open>2^32 - 1\<close>, \<open>createAAD\<close>
  returns the SHA-256 digest of the id's UTF-8 bytes followed by the four big-endian
  bytes of the index, which is 32 bytes long when SHA-256 digests are.  The function
  takes the id and the index only: no key is among its arguments.
\<close>

theorem createAAD_sha256:
  assumes "validateVideoId vid = Inr ()" and "i \<le> 4294967295"
    and "\<forall>x. length (sha256 P x) = 32"
  shows "createAAD P vid i = Inr (sha256 P (utf8 vid @ uint32_be i))
         \<and> length (sha256 P (utf8 vid @ uint32_be i)) = 32"
proof -
  have "vid \<noteq> []" using assms(1) by (simp add: validateVideoId_iff)
  then show ?thesis using assms(2,3) by (simp add: createAAD_def)
qed

lemma length_pad_to: "length (pad_to n x) = n"
  by (simp add: pad_to_def)

theorem createAAD_sha256_witness:
  "createAAD demo_primitives (js ''video-1'') 7
     = Inr (sha256 demo_primitives (utf8 (js ''video-1'') @ uint32_be 7))
   \<and> length (sha256 demo_primitives (utf8 (js ''video-1'') @ uint32_be 7)) = 32"
proof -
  have h: "\<forall>x. length (sha256 demo_primitives x) = 32"
    by (simp add: demo_primitives_def length_pad_to)
  show ?thesis
    using createAAD_sha256 [OF validateVideoId_video1 _ h, of 7] by simp
qed

section \<open>The length-prefixed envelope parser\<close>

lemma fromBuffer_Inr:
  assumes "32 \<le> length buf"
  shows "\<exists>c. fromBuffer buf = Inr c \<and> ciphertext c = drop 32 buf"
proof -
  obtain a b c d rest where "buf = a # b # c # d # rest"
    using assms by (cases buf rule: readUInt32BE.cases) auto
  then show ?thesis
    using assms by (simp add: fromBuffer_def HEADER_TOTAL_SIZE_def)
qed

lemma fromBuffer_Inl: "length buf < 32 \<Longrightarrow> fromBuffer buf = Inl BufferTooSmall"
  by (simp add: fromBuffer_def HEADER_TOTAL_SIZE_def)


lemma length_slice_buf: "length (slice_buf a b xs) = min (b - a) (length xs - a)"
  by (simp add: slice_buf_def)

lemma prefixed_loop_cases:
  assumes "4 \<le> length acc" and "readUInt32BE acc = Inr n"
  shows "(length acc < 4 + n \<longrightarrow> prefixed_loop acc out = (acc, out, None))
       \<and> (4 + n \<le> length acc \<and> n < 32 \<longrightarrow>
            prefixed_loop acc out = (drop (4 + n) acc, out, Some BufferTooSmall))
       \<and> (4 + n \<le> length acc \<and> 32 \<le> n \<longrightarrow>
            (\<exists>c. fromBuffer (slice_buf 4 (4 + n) acc) = Inr c
                 \<and> length (ciphertext c) = n - 32
                 \<and> prefixed_loop acc out = prefixed_loop (drop (4 + n) acc) (out @ [c])))"
proof (intro conjI impI)
  assume "length acc < 4 + n"
  then show "prefixed_loop acc out = (acc, out, None)"
    using assms by (subst prefixed_loop.simps) simp
next
  assume h: "4 + n \<le> length acc \<and> n < 32"
  then have "length (slice_buf 4 (4 + n) acc) < 32" by (auto simp: length_slice_buf)
  then have "fromBuffer (slice_buf 4 (4 + n) acc) = Inl BufferTooSmall"
    by (rule fromBuffer_Inl)
  then show "prefixed_loop acc out = (drop (4 + n) acc, out, Some BufferTooSmall)"
    using assms h by (subst prefixed_loop.simps) simp
next
  assume h: "4 + n \<le> length acc \<and> 32 \<le> n"
  then have len: "length (slice_buf 4 (4 + n) acc) = n" by (auto simp: length_slice_buf)
  then obtain c where c: "fromBuffer (slice_buf 4 (4 + n) acc) = Inr c"
    and ct: "ciphertext c = drop 32 (slice_buf 4 (4 + n) acc)"
    using fromBuffer_Inr [of "slice_buf 4 (4 + n) acc"] h by auto
  have "length (ciphertext c) = n - 32" using ct len by simp
  moreover have "prefixed_loop acc out = prefixed_loop (drop (4 + n) acc) (out @ [c])"
    using assms h c by (subst prefixed_loop.simps) simp
  ultimately show "\<exists>c. fromBuffer (slice_buf 4 (4 + n) acc) = Inr c
      \<and> length (ciphertext c) = n - 32
      \<and> prefixed_loop acc out = prefixed_loop (drop (4 + n) acc) (out @ [c])"
    using c by blast
qed

text \<open>
  Claim C8, as the code has it.  The length-prefixed parser puts no bound on the length
  it reads.  With at least four bytes buffered and \<open>n\<close> the length they encode:
  if fewer than \<open>4 + n\<close> bytes are buffered, \<open>_transform\<close> returns without an error
  and without a frame, the buffer kept, and waits for more input; otherwise the record is
  first cut off the buffer and then deserialized, which raises the short-buffer error of
  \<open>fromBuffer\<close> when \<open>n < 32\<close> and gives a frame of \<open>n - 32\<close> ciphertext bytes when
  \<open>32 \<le> n\<close>, after which the loop goes on.  At the end of the input, what is left in
  the buffer raises an error carrying its length.
\<close>

theorem prefixed_transform_cases:
  assumes "4 \<le> length (buf @ chunk)" and "readUInt32BE (buf @ chunk) = Inr n"
  shows "(length (buf @ chunk) < 4 + n \<longrightarrow>
            prefixed_transform buf chunk = (buf @ chunk, [], None))
       \<and> (4 + n \<le> length (buf @ chunk) \<and> n < 32 \<longrightarrow>
            prefixed_transform buf chunk = (drop (4 + n) (buf @ chunk), [], Some BufferTooSmall))
       \<and> (4 + n \<le> length (buf @ chunk) \<and> 32 \<le> n \<longrightarrow>
            (\<exists>c. fromBuffer (slice_buf 4 (4 + n) (buf @ chunk)) = Inr c
                 \<and> length (ciphertext c) = n - 32
                 \<and> prefixed_transform buf chunk = prefixed_loop (drop (4 + n) (buf @ chunk)) [c]))
       \<and> prefixed_flush (buf @ chunk) = Some (UnprocessedBytes (length (buf @ chunk)))"
proof -
  have "prefixed_flush (buf @ chunk) = Some (UnprocessedBytes (length (buf @ chunk)))"
    using assms(1) by (auto simp: prefixed_flush_def)
  then show ?thesis
    unfolding prefixed_transform_def
    using prefixed_loop_cases [OF assms, of "[]"] by (simp only: append_Nil simp_thms)
qed

text \<open>
  Claim C8 as stated fails on the four bytes \<open>00 00 00 0A\<close>, a length of 10, below 33,
  and on \<open>FF FF FF FF\<close>, a length above every cap: \<open>_transform\<close> raises no error and
  emits no frame; it keeps the four bytes and waits.
\<close>

theorem prefixed_transform_stalls:
  "prefixed_transform [] [0, 0, 0, 10] = ([0, 0, 0, 10], [], None)
   \<and> prefixed_transform [] [255, 255, 255, 255] = ([255, 255, 255, 255], [], None)"
  by (simp add: prefixed_transform_def)

theorem prefixed_transform_cases_witness:
  "prefixed_transform [0, 0] [0, 10, 1] = ([0, 0, 0, 10, 1], [], None)
   \<and> prefixed_transform [0, 0, 0, 2] [5, 6, 7] = ([7], [], Some BufferTooSmall)
   \<and> (\<exists>c. fromBuffer (slice_buf 4 36 ([0, 0, 0, 32] @ replicate 32 9)) = Inr c
         \<and> length (ciphertext c) = 0
         \<and> prefixed_transform [0, 0, 0, 32] (replicate 32 9) = prefixed_loop [] [c])
   \<and> prefixed_flush [0, 0, 0, 10, 1] = Some (UnprocessedBytes 5)"
proof -
  have a: "prefixed_transform [0, 0] [0, 10, 1] = ([0, 0, 0, 10, 1], [], None)
      \<and> prefixed_flush [0, 0, 0, 10, 1] = Some (UnprocessedBytes 5)"
    using prefixed_transform_cases [of "[0, 0]" "[0, 10, 1]" 10] by simp
  have b: "prefixed_transform [0, 0, 0, 2] [5, 6, 7] = ([7], [], Some BufferTooSmall)"
    using prefixed_transform_cases [of "[0, 0, 0, 2]" "[5, 6, 7]" 2] by simp
  have c: "\<exists>c. fromBuffer (slice_buf 4 36 ([0, 0, 0, 32] @ replicate 32 9)) = Inr c
         \<and> length (ciphertext c) = 0
         \<and> prefixed_transform [0, 0, 0, 32] (replicate 32 9) = prefixed_loop [] [c]"
    using prefixed_transform_cases [of "[0, 0, 0, 32]" "replicate 32 9" 32] by simp
  show ?thesis using a b c by blast
qed


section \<open>The decrypt framer\<close>

lemma decryptChunk_encryptChunk:
  assumes "aead_correct P" and "length n = 12"
    and "encryptChunk P n pt K vid i = Inr f"
  shows "decryptChunk P f K vid = Inr pt \<and> index f = i"
proof -
  from assms(3) have K: "validateMasterKey K = Inr ()" and v: "validateVideoId vid = Inr ()"
    by (auto simp: encryptChunk_def split: sum.splits)
  from assms(3) obtain aad where aad: "createAAD P vid i = Inr aad"
    and f: "f = \<lparr>index = i, iv = n, tag = snd (gcm_encrypt P K n aad pt),
                 ciphertext = fst (gcm_encrypt P K n aad pt)\<rparr>"
    by (auto simp: encryptChunk_def Let_def split: sum.splits)
  have lenK: "length K = 32"
    using K by (simp add: validateMasterKey_def KEY_LENGTH_def split: if_splits)
  have ae: "length (snd (gcm_encrypt P K n aad pt)) = 16
      \<and> gcm_decrypt P K n aad (fst (gcm_encrypt P K n aad pt))
            (snd (gcm_encrypt P K n aad pt)) = Some pt"
    using assms(1,2) lenK unfolding aead_correct_def by blast
  have "n \<noteq> []" using assms(2) by auto
  then show ?thesis
    using K v aad ae by (simp add: decryptChunk_def f AUTH_TAG_LENGTH_def)
qed

lemma feed_DecryptionStream:
  assumes "aead_correct P"
    and "list_all2 (\<lambda>f pt. \<exists>n. length n = 12
            \<and> encryptChunk P n pt K vid (index f) = Inr f) fs pts"
  shows "dec_videoKey s = K \<and> dec_videoId s = vid \<longrightarrow>
           (\<exists>s'. feed (DecryptionStream_transform P) s fs = (s', pts, None))"
  using assms(2)
proof (induction fs pts arbitrary: s rule: list_all2_induct)
  case Nil
  then show ?case by simp
next
  case (Cons f fs pt pts)
  show ?case
  proof
    assume st: "dec_videoKey s = K \<and> dec_videoId s = vid"
    from Cons.hyps(1) obtain n where n: "length n = 12"
      and e: "encryptChunk P n pt K vid (index f) = Inr f"
      by blast
    have d: "decryptChunk P f (dec_videoKey s) (dec_videoId s) = Inr pt"
      using decryptChunk_encryptChunk [OF assms(1) n e] st by simp
    let ?s1 = "s\<lparr>chunksProcessed := chunksProcessed s + 1,
               dec_bytesProcessed := dec_bytesProcessed s + length pt\<rparr>"
    have step: "DecryptionStream_transform P s f = (?s1, [pt], None)"
      using d by (simp add: DecryptionStream_transform_def)
    have "dec_videoKey ?s1 = K \<and> dec_videoId ?s1 = vid" using st by simp
    with Cons.IH [of ?s1] obtain s' where
      "feed (DecryptionStream_transform P) ?s1 fs = (s', pts, None)" by blast
    then show "\<exists>s'. feed (DecryptionStream_transform P) s (f # fs) = (s', pt # pts, None)"
      using step by simp
  qed
qed

text \<open>
  \<open>DecryptionStream\<close> keeps no expected index: each frame is opened with the
  associated data rebuilt from the frame's own index.  So whatever the order of the
  indices, a sequence of frames each sealed by \<open>encryptChunk\<close> under the stream's key
  and object id raises no error, and the plaintexts are pushed in the order the frames
  arrived.  (AES-GCM is assumed to open what it sealed.)
\<close>

lemma DecryptionStream_run_sealed:
  assumes "aead_correct P"
    and "list_all2 (\<lambda>f pt. \<exists>n. length n = 12
            \<and> encryptChunk P n pt K vid (index f) = Inr f) fs pts"
  shows "DecryptionStream_run P K vid fs = (pts, None)"
proof -
  have "\<exists>s'. feed (DecryptionStream_transform P) (new_DecryptionStream K vid) fs
          = (s', pts, None)"
    using feed_DecryptionStream [OF assms, of "new_DecryptionStream K vid"]
    by (simp add: new_DecryptionStream_def)
  then show ?thesis by (auto simp: DecryptionStream_run_def)
qed

lemma aead_correct_demo: "aead_correct demo_primitives"
  by (simp add: aead_correct_def demo_primitives_def demo_tag_def length_pad_to o_def)

lemma encryptChunk_frame_a:
  "encryptChunk demo_primitives (demo_nonce 0) [0x41] byte_ramp (js ''video-1'') 0 = Inr frame_a"
  using validateMasterKey_byte_ramp validateVideoId_video1
  by (simp add: encryptChunk_def validateBuffer_def validateChunkIndex_def
      MAX_CHUNKS_PER_VIDEO_def createAAD_def frame_a_def demo_primitives_def js_def)

lemma encryptChunk_frame_b:
  "encryptChunk demo_primitives (demo_nonce 1) [0x42] byte_ramp (js ''video-1'') 1 = Inr frame_b"
  using validateMasterKey_byte_ramp validateVideoId_video1
  by (simp add: encryptChunk_def validateBuffer_def validateChunkIndex_def
      MAX_CHUNKS_PER_VIDEO_def createAAD_def frame_b_def demo_primitives_def js_def)

text \<open>
  Claim C2 on the code.  Two frames are sealed with the indices 0 and 1 and fed to the
  decrypt framer in the order 1, 0.  The first frame has index 1 where 0 is expected; the
  framer raises no error and pushes both plaintexts, in the order fed.  The documentation
  of the repository states that chunks out of order are detected.
\<close>

theorem DecryptionStream_accepts_out_of_order:
  "index frame_b = 1 \<and> index frame_a = 0
   \<and> encryptChunk demo_primitives (demo_nonce 1) [0x42] byte_ramp (js ''video-1'') 1 = Inr frame_b
   \<and> encryptChunk demo_primitives (demo_nonce 0) [0x41] byte_ramp (js ''video-1'') 0 = Inr frame_a
   \<and> DecryptionStream_run demo_primitives byte_ramp (js ''video-1'') [frame_b, frame_a]
       = ([[0x42], [0x41]], None)"
proof -
  have "decryptChunk demo_primitives frame_b byte_ramp (js ''video-1'') = Inr [0x42]"
    using decryptChunk_encryptChunk [OF aead_correct_demo _ encryptChunk_frame_b]
    by (simp add: demo_nonce_def)
  moreover have "decryptChunk demo_primitives frame_a byte_ramp (js ''video-1'') = Inr [0x41]"
    using decryptChunk_encryptChunk [OF aead_correct_demo _ encryptChunk_frame_a]
    by (simp add: demo_nonce_def)
  ultimately have "DecryptionStream_run demo_primitives byte_ramp (js ''video-1'') [frame_b, frame_a]
       = ([[0x42], [0x41]], None)"
    by (simp add: DecryptionStream_run_def DecryptionStream_transform_def new_DecryptionStream_def)
  then show ?thesis
    using encryptChunk_frame_a encryptChunk_frame_b by (simp add: frame_a_def frame_b_def)
qed

section \<open>Splitting into chunks\<close>

lemma full_chunks_short: "length D < F \<Longrightarrow> full_chunks F D = []"
  by (simp add: full_chunks_def)

lemma full_chunks_step:
  assumes "0 < F" and "F \<le> length D"
  shows "full_chunks F D = take F D # full_chunks F (drop F D)"
proof -
  have d: "length D div F = Suc ((length D - F) div F)"
    using assms by (simp add: le_div_geq)
  have "[0..<Suc ((length D - F) div F)] = 0 # map Suc [0..<(length D - F) div F]"
    by (simp add: upt_conv_Cons map_Suc_upt del: upt_Suc)
  then show ?thesis
    unfolding full_chunks_def d by (simp add: o_def add.commute)
qed

lemma length_full_chunks: "length (full_chunks F D) = length D div F"
  by (simp add: full_chunks_def)

lemma full_chunks_append:
  assumes "0 < F"
  shows "full_chunks F (D @ X)
           = full_chunks F D @ full_chunks F (drop (length D div F * F) D @ X)"
  using assms
proof (induction "length D div F" arbitrary: D)
  case 0
  then have "length D < F" by (simp add: div_eq_0_iff)
  then show ?case using 0 by (simp add: full_chunks_short)
next
  case (Suc m)
  then have ge: "F \<le> length D"
    by (metis Zero_not_Suc div_less not_le_imp_less)
  have m: "m = length (drop F D) div F"
    using Suc.hyps(2) ge Suc.prems by (simp add: le_div_geq)
  have ih: "full_chunks F (drop F D @ X)
      = full_chunks F (drop F D) @ full_chunks F (drop (length (drop F D) div F * F) (drop F D) @ X)"
    by (rule Suc.hyps(1) [OF m Suc.prems])
  have "length D div F * F = F + m * F"
    using Suc.hyps(2) [symmetric] by simp
  then have dd: "drop (length (drop F D) div F * F) (drop F D) = drop (length D div F * F) D"
    using m by (simp add: add.commute)
  have "full_chunks F (D @ X) = take F D # full_chunks F (drop F D @ X)"
    using full_chunks_step [of F "D @ X"] ge Suc.prems by simp
  then show ?case
    using ih dd full_chunks_step [OF Suc.prems ge] by simp
qed

lemma concat_full_chunks:
  assumes "0 < F"
  shows "concat (full_chunks F D) = take (length D div F * F) D"
  using assms
proof (induction "length D div F" arbitrary: D)
  case 0
  then have "length D < F" by (simp add: div_eq_0_iff)
  then show ?case using 0 by (simp add: full_chunks_short)
next
  case (Suc m)
  then have ge: "F \<le> length D"
    by (metis Zero_not_Suc div_less not_le_imp_less)
  have m: "m = length (drop F D) div F"
    using Suc.hyps(2) ge Suc.prems by (simp add: le_div_geq)
  have ih: "concat (full_chunks F (drop F D)) = take (m * F) (drop F D)"
    using Suc.hyps(1) [OF m Suc.prems] m by simp
  have "take (Suc m * F) D = take F D @ take (m * F) (drop F D)"
    by (simp add: take_add)
  then show ?case
    using ih full_chunks_step [OF Suc.prems ge] Suc.hyps(2) [symmetric] by simp
qed

lemma concat_all_chunks: "0 < F \<Longrightarrow> concat (all_chunks F D) = D"
  by (simp add: all_chunks_def concat_full_chunks)

lemma ceil_div:
  fixes n F :: nat
  assumes "0 < F"
  shows "(n + F - 1) div F = n div F + (if n mod F = 0 then 0 else 1)"
proof -
  define r where "r = n mod F"
  define q where "q = n div F"
  define e where "e = (if r = 0 then F - 1 else r - 1)"
  have n: "n = r + q * F" by (simp add: q_def r_def)
  have rF: "r < F" using assms by (simp add: r_def)
  have eF: "e < F" using rF assms by (auto simp: e_def)
  have "n + F - 1 = e + (if r = 0 then q else Suc q) * F"
    using n assms by (auto simp: e_def algebra_simps)
  then have "(n + F - 1) div F = (if r = 0 then q else Suc q) + e div F"
    using div_mult_self1 [of F e "if r = 0 then q else Suc q"] assms by simp
  then show ?thesis using eF by (simp add: q_def r_def)
qed

lemma remainder_empty_iff: "(drop (length D div F * F) D = []) = (length D mod F = 0)"
proof -
  have "length D div F * F + length D mod F = length D" by simp
  then show ?thesis by (simp only: drop_eq_Nil) linarith
qed

lemma length_remainder: "length (drop (length D div F * F) D) = length D mod F"
  by (simp add: minus_div_mult_eq_mod)

lemma length_all_chunks:
  assumes "0 < F"
  shows "length (all_chunks F D) = (length D + F - 1) div F"
proof -
  have "length (all_chunks F D) = length D div F + (if length D mod F = 0 then 0 else 1)"
    unfolding all_chunks_def remainder_empty_iff by (simp add: length_full_chunks)
  then show ?thesis by (simp only: ceil_div [OF assms])
qed


section \<open>The encrypt framer\<close>

lemma encryptChunk_sealed:
  assumes "validateMasterKey K = Inr ()" and "validateVideoId vid = Inr ()"
    and "pt \<noteq> []" and "i \<le> 100000"
  shows "encryptChunk P (rnd i) pt K vid i = Inr (sealed_frame P rnd K vid i pt)"
proof -
  have "vid \<noteq> []" using assms(2) by (simp add: validateVideoId_iff)
  then show ?thesis
    using assms
    by (simp add: encryptChunk_def validateBuffer_def validateChunkIndex_def
        MAX_CHUNKS_PER_VIDEO_def createAAD_def sealed_frame_def Let_def)
qed

lemma encryptChunk_too_many:
  assumes "validateMasterKey K = Inr ()" and "validateVideoId vid = Inr ()"
    and "pt \<noteq> []" and "100000 < i" and "i \<le> 4294967295"
  shows "encryptChunk P n pt K vid i = Inl (SecurityError ''TOO_MANY_CHUNKS'')"
  using assms
  by (simp add: encryptChunk_def validateBuffer_def validateChunkIndex_def
      MAX_CHUNKS_PER_VIDEO_def)

lemma seal_from_append:
  "seal_from P rnd K vid k (xs @ ys)
     = seal_from P rnd K vid k xs @ seal_from P rnd K vid (k + length xs) ys"
  by (induction xs arbitrary: k) simp_all

lemma length_seal_from: "length (seal_from P rnd K vid k xs) = length xs"
  by (induction xs arbitrary: k) simp_all

lemma nth_seal_from:
  "i < length xs \<Longrightarrow> seal_from P rnd K vid k xs ! i = sealed_frame P rnd K vid (k + i) (xs ! i)"
proof (induction xs arbitrary: k i)
  case Nil
  then show ?case by simp
next
  case (Cons x xs)
  then show ?case by (cases i) simp_all
qed

lemma EncryptionStream_loop_frames:
  assumes "validateMasterKey K = Inr ()" and "validateVideoId vid = Inr ()" and "0 < F"
    and "framer_state s K vid F"
    and "chunkIndex s + length (enc_buffer s) div F \<le> 100001"
  shows "\<exists>s'. EncryptionStream_loop P rnd s out
            = (s', out @ seal_from P rnd K vid (chunkIndex s) (full_chunks F (enc_buffer s)), None)
          \<and> framer_state s' K vid F
          \<and> chunkIndex s' = chunkIndex s + length (enc_buffer s) div F
          \<and> enc_buffer s' = drop (length (enc_buffer s) div F * F) (enc_buffer s)"
  using assms(4,5)
proof (induction "length (enc_buffer s) div F" arbitrary: s out)
  case 0
  then have short: "length (enc_buffer s) < F" using assms(3) by (simp add: div_eq_0_iff)
  have F: "chunkSize s = F" using "0.prems"(1) by (simp add: framer_state_def)
  have "EncryptionStream_loop P rnd s out = (s, out, None)"
    using short F by (subst EncryptionStream_loop.simps) simp
  then show ?case
    using short "0.prems"(1) "0.hyps" by (simp add: full_chunks_short)
next
  case (Suc m)
  let ?D = "enc_buffer s"
  have st: "enc_videoKey s = K" "enc_videoId s = vid" "chunkSize s = F"
    using Suc.prems(1) by (simp_all add: framer_state_def)
  have ge: "F \<le> length ?D"
    using Suc.hyps(2) by (metis Zero_not_Suc div_less not_le_imp_less)
  have m: "m = length (drop F ?D) div F"
    using Suc.hyps(2) ge assms(3) by (simp add: le_div_geq)
  have idx: "chunkIndex s \<le> 100000"
    using Suc.prems(2) Suc.hyps(2) [symmetric] by simp
  have tk: "slice_buf 0 F ?D = take F ?D" by (simp add: slice_buf_def)
  have ne: "take F ?D \<noteq> []" using ge assms(3) by auto
  have enc: "encryptChunk P (rnd (chunkIndex s)) (take F ?D) K vid (chunkIndex s)
               = Inr (sealed_frame P rnd K vid (chunkIndex s) (take F ?D))"
    by (rule encryptChunk_sealed [OF assms(1,2) ne idx])
  let ?s1 = "s\<lparr>enc_buffer := drop F ?D, chunkIndex := chunkIndex s + 1,
                enc_bytesProcessed := enc_bytesProcessed s + length (take F ?D)\<rparr>"
  let ?fr = "sealed_frame P rnd K vid (chunkIndex s) (take F ?D)"
  have unfold: "EncryptionStream_loop P rnd s out = EncryptionStream_loop P rnd ?s1 (out @ [?fr])"
    using ge st enc tk by (subst EncryptionStream_loop.simps) simp
  have st1: "framer_state ?s1 K vid F" using st by (simp add: framer_state_def)
  have b1: "chunkIndex ?s1 + length (enc_buffer ?s1) div F \<le> 100001"
    using Suc.prems(2) Suc.hyps(2) [symmetric] m by simp
  have m1: "m = length (enc_buffer ?s1) div F" using m by simp
  from Suc.hyps(1) [OF m1 st1 b1, of "out @ [?fr]"] obtain s' where
    r: "EncryptionStream_loop P rnd ?s1 (out @ [?fr])
          = (s', (out @ [?fr]) @ seal_from P rnd K vid (chunkIndex ?s1)
                                   (full_chunks F (enc_buffer ?s1)), None)"
    and s': "framer_state s' K vid F"
    and i': "chunkIndex s' = chunkIndex ?s1 + length (enc_buffer ?s1) div F"
    and b': "enc_buffer s' = drop (length (enc_buffer ?s1) div F * F) (enc_buffer ?s1)"
    by blast
  have fc: "full_chunks F ?D = take F ?D # full_chunks F (drop F ?D)"
    by (rule full_chunks_step [OF assms(3) ge])
  have q: "length ?D div F = Suc m" using Suc.hyps(2) by simp
  have "EncryptionStream_loop P rnd s out
          = (s', out @ seal_from P rnd K vid (chunkIndex s) (full_chunks F ?D), None)"
    using unfold r fc by simp
  moreover have "chunkIndex s' = chunkIndex s + length ?D div F"
    using i' m q by simp
  moreover have "enc_buffer s' = drop (length ?D div F * F) ?D"
    using b' m q by (simp add: add.commute)
  ultimately show ?case using s' by blast
qed


lemma remainder_append:
  assumes "0 < F"
  shows "length (D @ X) div F
           = length D div F + length (drop (length D div F * F) D @ X) div F"
    and "drop (length (drop (length D div F * F) D @ X) div F * F)
              (drop (length D div F * F) D @ X)
           = drop (length (D @ X) div F * F) (D @ X)"
proof -
  define m where "m = length D div F"
  define R where "R = drop (m * F) D @ X"
  define DX where "DX = D @ X"
  have b: "m * F \<le> length D" by (simp add: m_def)
  have dr: "R = drop (m * F) DX" using b by (simp add: R_def DX_def)
  have "m * F \<le> length DX" using b by (simp add: DX_def)
  then have len: "length DX = length R + m * F" by (simp add: dr)
  have q: "length DX div F = m + length R div F"
    using assms by (simp only: len div_mult_self1)
  have "drop (length R div F * F) (drop (m * F) DX) = drop (length DX div F * F) DX"
    by (simp only: drop_drop q add_mult_distrib add.commute)
  then have d: "drop (length R div F * F) R = drop (length DX div F * F) DX"
    by (simp only: dr [symmetric])
  show "length (D @ X) div F
           = length D div F + length (drop (length D div F * F) D @ X) div F"
    using q by (simp only: DX_def R_def m_def)
  show "drop (length (drop (length D div F * F) D @ X) div F * F)
              (drop (length D div F * F) D @ X)
           = drop (length (D @ X) div F * F) (D @ X)"
    using d by (simp only: DX_def R_def m_def)
qed

lemma div_append_le: "length (R @ b) div F \<le> length (R @ b @ X) div F"
  by (rule div_le_mono) simp

lemma feed_EncryptionStream_frames:
  assumes "validateMasterKey K = Inr ()" and "validateVideoId vid = Inr ()" and "0 < F"
    and "framer_state s K vid F"
    and "length (enc_buffer s) < F"
    and "chunkIndex s + length (enc_buffer s @ concat bs) div F \<le> 100001"
  shows "\<exists>s'. feed (EncryptionStream_transform P rnd) s bs
            = (s', seal_from P rnd K vid (chunkIndex s)
                     (full_chunks F (enc_buffer s @ concat bs)), None)
          \<and> framer_state s' K vid F
          \<and> chunkIndex s' = chunkIndex s + length (enc_buffer s @ concat bs) div F
          \<and> enc_buffer s' = drop (length (enc_buffer s @ concat bs) div F * F)
                                (enc_buffer s @ concat bs)"
  using assms(4,5,6)
proof (induction bs arbitrary: s)
  case Nil
  then show ?case by (simp add: full_chunks_short)
next
  case (Cons b bs)
  let ?R = "enc_buffer s"
  let ?D1 = "?R @ b"
  let ?X = "concat bs"
  let ?m1 = "length ?D1 div F"
  let ?s0 = "s\<lparr>enc_buffer := ?D1\<rparr>"
  have st0: "framer_state ?s0 K vid F" using Cons.prems(1) by (simp add: framer_state_def)
  have le: "?m1 \<le> length (?R @ b @ ?X) div F" by (rule div_append_le)
  have b0: "chunkIndex ?s0 + length (enc_buffer ?s0) div F \<le> 100001"
    using Cons.prems(3) le by simp
  from EncryptionStream_loop_frames [OF assms(1,2,3) st0 b0, of P rnd "[]"] obtain s1 where
    t: "EncryptionStream_transform P rnd s b
          = (s1, seal_from P rnd K vid (chunkIndex s) (full_chunks F ?D1), None)"
    and st1: "framer_state s1 K vid F"
    and i1: "chunkIndex s1 = chunkIndex s + ?m1"
    and b1: "enc_buffer s1 = drop (?m1 * F) ?D1"
    by (auto simp: EncryptionStream_transform_def)
  have short1: "length (enc_buffer s1) < F"
    by (simp only: b1 length_remainder) (simp add: assms(3))
  have q: "length (?D1 @ ?X) div F = ?m1 + length (enc_buffer s1 @ ?X) div F"
    using remainder_append(1) [OF assms(3), of ?D1 ?X] by (simp only: b1)
  have bnd: "chunkIndex s1 + length (enc_buffer s1 @ concat bs) div F \<le> 100001"
    using Cons.prems(3) i1 q by simp
  from Cons.IH [OF st1 short1 bnd] obtain s' where
    f: "feed (EncryptionStream_transform P rnd) s1 bs
          = (s', seal_from P rnd K vid (chunkIndex s1)
                   (full_chunks F (enc_buffer s1 @ ?X)), None)"
    and st': "framer_state s' K vid F"
    and i': "chunkIndex s' = chunkIndex s1 + length (enc_buffer s1 @ ?X) div F"
    and b': "enc_buffer s' = drop (length (enc_buffer s1 @ ?X) div F * F) (enc_buffer s1 @ ?X)"
    by blast
  have app: "full_chunks F (?D1 @ ?X) = full_chunks F ?D1 @ full_chunks F (enc_buffer s1 @ ?X)"
    using full_chunks_append [OF assms(3), of ?D1 ?X] b1 by simp
  have "feed (EncryptionStream_transform P rnd) s (b # bs)
          = (s', seal_from P rnd K vid (chunkIndex s) (full_chunks F (?D1 @ ?X)), None)"
    using t f app i1 by (simp add: seal_from_append length_full_chunks)
  moreover have "chunkIndex s' = chunkIndex s + length (?D1 @ ?X) div F"
    using i' i1 q by simp
  moreover have "enc_buffer s' = drop (length (?D1 @ ?X) div F * F) (?D1 @ ?X)"
    using remainder_append(2) [OF assms(3), of ?D1 ?X] by (simp only: b' b1)
  ultimately show ?case using st' by simp
qed

lemma chunkSize_or_default_pos: "0 < chunkSize_or_default opt"
  by (simp add: chunkSize_or_default_def CHUNK_SIZE_def split: option.splits)

lemma EncryptionStream_run_frames:
  assumes "validateMasterKey K = Inr ()" and "validateVideoId vid = Inr ()"
    and "(length (concat blocks) + chunkSize_or_default opt - 1) div chunkSize_or_default opt
           \<le> 100001"
  shows "EncryptionStream_run P rnd K vid opt blocks
           = (seal_from P rnd K vid 0 (all_chunks (chunkSize_or_default opt) (concat blocks)), None)"
proof -
  let ?F = "chunkSize_or_default opt"
  let ?B = "concat blocks"
  let ?m = "length ?B div ?F"
  let ?s0 = "new_EncryptionStream K vid opt"
  have F: "0 < ?F" by (rule chunkSize_or_default_pos)
  have st0: "framer_state ?s0 K vid ?F"
    by (simp add: framer_state_def new_EncryptionStream_def)
  have n: "?m + (if length ?B mod ?F = 0 then 0 else 1) \<le> 100001"
    using assms(3) by (simp only: ceil_div [OF F])
  have b0: "chunkIndex ?s0 + length (enc_buffer ?s0 @ ?B) div ?F \<le> 100001"
    using n by (simp add: new_EncryptionStream_def)
  have sh0: "length (enc_buffer ?s0) < ?F" using F by (simp add: new_EncryptionStream_def)
  from feed_EncryptionStream_frames [OF assms(1,2) F st0 sh0 b0, of P rnd] obtain s1 where
    f: "feed (EncryptionStream_transform P rnd) ?s0 blocks
          = (s1, seal_from P rnd K vid 0 (full_chunks ?F ?B), None)"
    and st1: "framer_state s1 K vid ?F"
    and i1: "chunkIndex s1 = ?m"
    and b1: "enc_buffer s1 = drop (?m * ?F) ?B"
    by (auto simp: new_EncryptionStream_def)
  have st: "enc_videoKey s1 = K" "enc_videoId s1 = vid"
    using st1 by (simp_all add: framer_state_def)
  show ?thesis
  proof (cases "drop (?m * ?F) ?B = []")
    case True
    then have "EncryptionStream_flush P rnd s1 = (s1, [], None)"
      using b1 by (simp add: EncryptionStream_flush_def)
    then show ?thesis
      using f True by (simp add: EncryptionStream_run_def all_chunks_def)
  next
    case False
    then have "length ?B mod ?F \<noteq> 0" by (simp only: remainder_empty_iff) simp
    then have idx: "?m \<le> 100000" using n by simp
    have enc: "encryptChunk P (rnd ?m) (drop (?m * ?F) ?B) K vid ?m
                 = Inr (sealed_frame P rnd K vid ?m (drop (?m * ?F) ?B))"
      by (rule encryptChunk_sealed [OF assms(1,2) False idx])
    have "\<exists>s2. EncryptionStream_flush P rnd s1
            = (s2, [sealed_frame P rnd K vid ?m (drop (?m * ?F) ?B)], None)"
      using b1 i1 st False enc by (simp add: EncryptionStream_flush_def)
    then show ?thesis
      using f False
      by (auto simp: EncryptionStream_run_def all_chunks_def seal_from_append length_full_chunks)
  qed
qed

lemma nth_all_chunks:
  assumes "0 < F" and "i < length (all_chunks F D)"
  shows "all_chunks F D ! i = take F (drop (i * F) D)"
proof (cases "i < length D div F")
  case True
  then show ?thesis
    by (simp add: all_chunks_def nth_append length_full_chunks) (simp add: full_chunks_def)
next
  case False
  then have i: "i = length D div F"
    using assms(2) by (simp add: all_chunks_def length_full_chunks split: if_splits)
  have ne: "drop (length D div F * F) D \<noteq> []"
    using assms(2) False by (auto simp: all_chunks_def length_full_chunks split: if_splits)
  have "length (drop (length D div F * F) D) < F"
    using assms(1) by (simp only: length_remainder) simp
  then have "take F (drop (length D div F * F) D) = drop (length D div F * F) D" by simp
  then show ?thesis
    using i ne by (simp add: all_chunks_def nth_append length_full_chunks)
qed

lemma length_nth_all_chunks:
  assumes "0 < F" and "i < length (all_chunks F D)"
  shows "length (all_chunks F D ! i)
           = (if Suc i < length (all_chunks F D) then F else length D - i * F)
         \<and> 1 \<le> length (all_chunks F D ! i) \<and> length (all_chunks F D ! i) \<le> F"
proof -
  let ?n = "length (all_chunks F D)"
  have n: "?n = length D div F + (if length D mod F = 0 then 0 else 1)"
    unfolding all_chunks_def remainder_empty_iff by (simp add: length_full_chunks)
  have eq: "all_chunks F D ! i = take F (drop (i * F) D)"
    by (rule nth_all_chunks [OF assms])
  have split: "length D = length D div F * F + length D mod F" by simp
  have modF: "length D mod F < F" using assms(1) by simp
  show ?thesis
  proof (cases "i < length D div F")
    case True
    then have "Suc i \<le> length D div F" by simp
    then have a: "i * F + F \<le> length D div F * F"
      using mult_le_mono1 [of "Suc i" "length D div F" F] by simp
    have b: "length D div F * F \<le> length D" by simp
    have le: "i * F + F \<le> length D" by (rule order_trans [OF a b])
    then have len: "length (take F (drop (i * F) D)) = F" by simp
    have "\<not> Suc i < ?n \<longrightarrow> length D - i * F = F"
    proof
      assume "\<not> Suc i < ?n"
      then have "Suc i = length D div F \<and> length D mod F = 0"
        using True n by (auto split: if_splits)
      then have "length D = Suc i * F"
        by (metis mod_0_imp_dvd dvd_div_mult_self)
      then show "length D - i * F = F" by simp
    qed
    then show ?thesis using len eq assms(1) by auto
  next
    case False
    then have i: "i = length D div F" and r: "length D mod F \<noteq> 0"
      using assms(2) n by (auto split: if_splits)
    have "length (take F (drop (i * F) D)) = length D mod F"
      using i modF by (simp add: minus_div_mult_eq_mod)
    moreover have "length D - i * F = length D mod F"
      using i by (simp add: minus_div_mult_eq_mod)
    moreover have "\<not> Suc i < ?n" using i n r by simp
    ultimately show ?thesis using eq r modF by simp
  qed
qed


text \<open>
  Claim C4, as the code has it.  Let the framer hold a valid subkey and a valid object id,
  let \<open>F\<close> be its frame size (the option, or 524288 when the option is absent or 0),
  \<open>B\<close> the concatenation of the blocks written to it and \<open>n\<close> the ceiling of
  \<open>|B| / F\<close>.  When \<open>n\<close> is at most 100001 (the frame indices then stay within
  \<open>MAX_CHUNKS_PER_VIDEO\<close>), the framer raises no error and pushes exactly \<open>n\<close>
  frames; frame \<open>i\<close> has index \<open>i\<close> and is \<open>encryptChunk\<close> of bytes
  \<open>i * F\<close> to \<open>(i + 1) * F\<close> of \<open>B\<close>; that piece is \<open>F\<close> bytes long for every frame
  but the last, and between 1 and \<open>F\<close> bytes for the last.  So the empty input gives no
  frame, and an input of \<open>k * F\<close> bytes gives \<open>k\<close> frames of \<open>F\<close> bytes.
\<close>

theorem EncryptionStream_frames:
  assumes "validateMasterKey K = Inr ()" and "validateVideoId vid = Inr ()"
    and "F = chunkSize_or_default opt" and "B = concat blocks"
    and "n = (length B + F - 1) div F" and "n \<le> 100001"
  shows "\<exists>frames. EncryptionStream_run P rnd K vid opt blocks = (frames, None)
           \<and> length frames = n
           \<and> (\<forall>i<n. index (frames ! i) = i
                 \<and> encryptChunk P (rnd i) (take F (drop (i * F) B)) K vid i = Inr (frames ! i)
                 \<and> length (take F (drop (i * F) B)) = (if Suc i < n then F else length B - i * F)
                 \<and> 1 \<le> length (take F (drop (i * F) B))
                 \<and> length (take F (drop (i * F) B)) \<le> F)"
proof -
  let ?frames = "seal_from P rnd K vid 0 (all_chunks F B)"
  have F: "0 < F" using assms(3) by (simp add: chunkSize_or_default_pos)
  have cap: "(length (concat blocks) + chunkSize_or_default opt - 1) div chunkSize_or_default opt
               \<le> 100001"
    using assms(3,4,5,6) by simp
  have run: "EncryptionStream_run P rnd K vid opt blocks = (?frames, None)"
    using EncryptionStream_run_frames [OF assms(1,2) cap] assms(3,4) by simp
  have len: "length (all_chunks F B) = n"
    using length_all_chunks [OF F, of B] assms(5) by simp
  have each: "index (?frames ! i) = i
      \<and> encryptChunk P (rnd i) (take F (drop (i * F) B)) K vid i = Inr (?frames ! i)
      \<and> length (take F (drop (i * F) B)) = (if Suc i < n then F else length B - i * F)
      \<and> 1 \<le> length (take F (drop (i * F) B))
      \<and> length (take F (drop (i * F) B)) \<le> F" if i: "i < n" for i
  proof -
    have il: "i < length (all_chunks F B)" using i len by simp
    have nth: "all_chunks F B ! i = take F (drop (i * F) B)"
      by (rule nth_all_chunks [OF F il])
    have fr: "?frames ! i = sealed_frame P rnd K vid i (take F (drop (i * F) B))"
      using nth_seal_from [OF il, of P rnd K vid 0] nth by simp
    have sz: "length (take F (drop (i * F) B)) = (if Suc i < n then F else length B - i * F)
        \<and> 1 \<le> length (take F (drop (i * F) B)) \<and> length (take F (drop (i * F) B)) \<le> F"
      using length_nth_all_chunks [OF F il] unfolding nth len .
    then have ne: "take F (drop (i * F) B) \<noteq> []" by auto
    have "i \<le> 100000" using i assms(6) by simp
    then have "encryptChunk P (rnd i) (take F (drop (i * F) B)) K vid i = Inr (?frames ! i)"
      using encryptChunk_sealed [OF assms(1,2) ne, of i P rnd] fr by simp
    moreover have "index (?frames ! i) = i" using fr by (simp add: sealed_frame_def)
    ultimately show ?thesis using sz by blast
  qed
  have "length ?frames = n" using len by (simp add: length_seal_from)
  with run each show ?thesis by blast
qed

theorem EncryptionStream_frames_witness:
  "\<exists>frames. EncryptionStream_run demo_primitives demo_nonce byte_ramp (js ''video-1'') (Some 2)
               [[1, 2, 3], [4, 5]] = (frames, None)
     \<and> length frames = 3
     \<and> (\<forall>i<3. index (frames ! i) = i
           \<and> encryptChunk demo_primitives (demo_nonce i) (take 2 (drop (i * 2) [1, 2, 3, 4, 5]))
                byte_ramp (js ''video-1'') i = Inr (frames ! i)
           \<and> length (take 2 (drop (i * 2) [1, 2, 3, 4, 5 :: byte]))
                = (if Suc i < 3 then 2 else length [1, 2, 3, 4, 5 :: byte] - i * 2)
           \<and> 1 \<le> length (take 2 (drop (i * 2) [1, 2, 3, 4, 5 :: byte]))
           \<and> length (take 2 (drop (i * 2) [1, 2, 3, 4, 5 :: byte])) \<le> 2)"
  using EncryptionStream_frames [OF validateMasterKey_byte_ramp validateVideoId_video1,
      of 2 "Some 2" "[1, 2, 3, 4, 5]" "[[1, 2, 3], [4, 5]]" 3 demo_primitives demo_nonce]
  by (simp add: chunkSize_or_default_def)

lemma EncryptionStream_loop_cap:
  assumes "validateMasterKey K = Inr ()" and "validateVideoId vid = Inr ()" and "0 < F"
    and "framer_state s K vid F"
    and "chunkIndex s \<le> 100001"
    and "100001 < chunkIndex s + length (enc_buffer s) div F"
  shows "\<exists>s' fr. EncryptionStream_loop P rnd s out
            = (s', out @ fr, Some (SecurityError ''TOO_MANY_CHUNKS''))
          \<and> length fr = 100001 - chunkIndex s"
  using assms(4,5,6)
proof (induction "100001 - chunkIndex s" arbitrary: s out)
  case 0
  let ?D = "enc_buffer s"
  have st: "enc_videoKey s = K" "enc_videoId s = vid" "chunkSize s = F"
    using "0.prems"(1) by (simp_all add: framer_state_def)
  have k: "chunkIndex s = 100001" using "0.hyps" "0.prems"(2) by simp
  have "0 < length ?D div F" using "0.prems"(3) k by simp
  then have ge: "F \<le> length ?D"
    by (metis div_less not_le_imp_less less_numeral_extra(3))
  have ne: "take F ?D \<noteq> []" using ge assms(3) by auto
  have enc: "encryptChunk P (rnd (chunkIndex s)) (take F ?D) K vid (chunkIndex s)
               = Inl (SecurityError ''TOO_MANY_CHUNKS'')"
    by (rule encryptChunk_too_many [OF assms(1,2) ne]) (simp_all add: k)
  have "EncryptionStream_loop P rnd s out
          = (s\<lparr>enc_buffer := drop F ?D\<rparr>, out, Some (SecurityError ''TOO_MANY_CHUNKS''))"
    using ge st enc by (subst EncryptionStream_loop.simps) (simp add: slice_buf_def)
  then show ?case using k by simp
next
  case (Suc d)
  let ?D = "enc_buffer s"
  have st: "enc_videoKey s = K" "enc_videoId s = vid" "chunkSize s = F"
    using Suc.prems(1) by (simp_all add: framer_state_def)
  have k: "chunkIndex s \<le> 100000" using Suc.hyps(2) by simp
  have "0 < length ?D div F" using Suc.prems(3) k by simp
  then have ge: "F \<le> length ?D"
    by (metis div_less not_le_imp_less less_numeral_extra(3))
  have ne: "take F ?D \<noteq> []" using ge assms(3) by auto
  have enc: "encryptChunk P (rnd (chunkIndex s)) (take F ?D) K vid (chunkIndex s)
               = Inr (sealed_frame P rnd K vid (chunkIndex s) (take F ?D))"
    by (rule encryptChunk_sealed [OF assms(1,2) ne k])
  let ?s1 = "s\<lparr>enc_buffer := drop F ?D, chunkIndex := chunkIndex s + 1,
                enc_bytesProcessed := enc_bytesProcessed s + length (take F ?D)\<rparr>"
  let ?fr = "sealed_frame P rnd K vid (chunkIndex s) (take F ?D)"
  have unfold: "EncryptionStream_loop P rnd s out = EncryptionStream_loop P rnd ?s1 (out @ [?fr])"
    using ge st enc by (subst EncryptionStream_loop.simps) (simp add: slice_buf_def)
  have st1: "framer_state ?s1 K vid F" using st by (simp add: framer_state_def)
  have d: "d = 100001 - chunkIndex ?s1" using Suc.hyps(2) by simp
  have k1: "chunkIndex ?s1 \<le> 100001" using k by simp
  have "length ?D div F = Suc (length (drop F ?D) div F)"
    using ge assms(3) by (simp add: le_div_geq)
  then have b1: "100001 < chunkIndex ?s1 + length (enc_buffer ?s1) div F"
    using Suc.prems(3) by simp
  from Suc.hyps(1) [OF d st1 k1 b1, of "out @ [?fr]"] obtain s' fr where
    r: "EncryptionStream_loop P rnd ?s1 (out @ [?fr])
          = (s', (out @ [?fr]) @ fr, Some (SecurityError ''TOO_MANY_CHUNKS''))"
    and l: "length fr = 100001 - chunkIndex ?s1"
    by blast
  have "EncryptionStream_loop P rnd s out
          = (s', out @ (?fr # fr), Some (SecurityError ''TOO_MANY_CHUNKS''))"
    using unfold r by simp
  moreover have "length (?fr # fr) = 100001 - chunkIndex s"
    using l k by simp
  ultimately show ?case by blast
qed

text \<open>
  Claim C4 as stated fails on an input of 100002 * 1024 bytes with the frame size 1024:
  the ceiling of \<open>|B| / F\<close> is 100002, and the framer pushes 100001 frames and then
  stops with the error \<open>TOO_MANY_CHUNKS\<close>, raised by \<open>validateChunkIndex\<close> for the
  index 100001.
\<close>

theorem EncryptionStream_stops_at_cap:
  "(length (replicate 102402048 (0 :: byte)) + 1024 - 1) div 1024 = 100002
   \<and> snd (EncryptionStream_run demo_primitives demo_nonce byte_ramp (js ''video-1'') (Some 1024)
           [replicate 102402048 0]) = Some (SecurityError ''TOO_MANY_CHUNKS'')
   \<and> length (fst (EncryptionStream_run demo_primitives demo_nonce byte_ramp (js ''video-1'')
           (Some 1024) [replicate 102402048 0])) = 100001"
proof -
  let ?s0 = "(new_EncryptionStream byte_ramp (js ''video-1'') (Some 1024))
               \<lparr>enc_buffer := replicate 102402048 0\<rparr>"
  have st: "framer_state ?s0 byte_ramp (js ''video-1'') 1024"
    by (simp add: framer_state_def new_EncryptionStream_def chunkSize_or_default_def)
  have k: "chunkIndex ?s0 \<le> 100001" by (simp add: new_EncryptionStream_def)
  have b: "100001 < chunkIndex ?s0 + length (enc_buffer ?s0) div 1024"
    by (simp add: new_EncryptionStream_def)
  from EncryptionStream_loop_cap [OF validateMasterKey_byte_ramp validateVideoId_video1 _ st k b,
      of demo_primitives demo_nonce "[]"]
  obtain s' fr where
    r: "EncryptionStream_loop demo_primitives demo_nonce ?s0 []
          = (s', fr, Some (SecurityError ''TOO_MANY_CHUNKS''))"
    and l: "length fr = 100001"
    by (auto simp: new_EncryptionStream_def)
  have "EncryptionStream_run demo_primitives demo_nonce byte_ramp (js ''video-1'') (Some 1024)
           [replicate 102402048 0] = (fr, Some (SecurityError ''TOO_MANY_CHUNKS''))"
    using r
    by (simp add: EncryptionStream_run_def EncryptionStream_transform_def
        new_EncryptionStream_def)
  then show ?thesis using l by simp
qed

section \<open>\<open>encryptBuffer\<close> followed by \<open>decryptBuffer\<close>\<close>

lemma toBuffer_serialized: "index c < 4294967296 \<Longrightarrow> toBuffer c = Inr (serialized c)"
  by (simp add: toBuffer_def writeUInt32BE_def serialized_def)

lemma feed_ChunkSerializationStream:
  assumes "\<forall>c \<in> set frames. index c < 4294967296"
  shows "feed ChunkSerializationStream_transform () frames = ((), map serialized frames, None)"
  using assms
  by (induction frames) (simp_all add: ChunkSerializationStream_transform_def toBuffer_serialized)

lemma framewise_transform_serialized:
  assumes "wire_frame c"
  shows "framewise_transform [] (serialized c) = ([], [c], None)"
proof -
  let ?buf = "serialized c"
  have w: "index c < 4294967296" "length (iv c) = 12" "length (tag c) = 16" "ciphertext c \<noteq> []"
    using assms by (simp_all add: wire_frame_def)
  have len: "length ?buf = 32 + length (ciphertext c)"
    using w by (simp add: serialized_def length_uint32_be)
  have big: "minChunkSize \<le> length ?buf"
    using w(4) len by (cases "ciphertext c") (simp_all add: minChunkSize_def HEADER_TOTAL_SIZE_def)
  have fb: "fromBuffer ?buf = Inr c"
    using fromBuffer_layout [OF w(1,2,3), of "ciphertext c"] by (simp add: serialized_def)
  have rest: "drop (size_chunk c) ?buf = []"
    using len by (simp add: size_chunk_def HEADER_TOTAL_SIZE_def)
  have stop: "framewise_loop [] [c] = ([], [c], None)"
    by (subst framewise_loop.simps) (simp add: minChunkSize_def HEADER_TOTAL_SIZE_def)
  have "framewise_loop ?buf [] = framewise_loop [] [c]"
    using big fb rest by (subst framewise_loop.simps) simp
  then show ?thesis using stop by (simp add: framewise_transform_def)
qed

lemma feed_framewise:
  assumes "\<forall>c \<in> set frames. wire_frame c"
  shows "feed framewise_transform [] (map serialized frames) = ([], frames, None)"
  using assms by (induction frames) (simp_all add: framewise_transform_serialized)

lemma wire_frame_sealed:
  assumes "aead_correct P" and "length (rnd i) = 12" and "length K = 32"
    and "pt \<noteq> []" and "i < 4294967296"
  shows "wire_frame (sealed_frame P rnd K vid i pt)"
proof -
  let ?aad = "sha256 P (utf8 vid @ uint32_be i)"
  have "length (fst (gcm_encrypt P K (rnd i) ?aad pt)) = length pt
      \<and> length (snd (gcm_encrypt P K (rnd i) ?aad pt)) = 16"
    using assms(1,2,3) unfolding aead_correct_def by blast
  then show ?thesis
    using assms(2,4,5) by (auto simp: wire_frame_def sealed_frame_def)
qed

lemma seal_from_props:
  assumes "aead_correct P" and "\<forall>i. length (rnd i) = 12"
    and "validateMasterKey K = Inr ()" and "validateVideoId vid = Inr ()"
    and "\<forall>pt \<in> set pts. pt \<noteq> []" and "k + length pts \<le> 100001"
  shows "(\<forall>c \<in> set (seal_from P rnd K vid k pts). wire_frame c)
       \<and> list_all2 (\<lambda>f pt. \<exists>n. length n = 12 \<and> encryptChunk P n pt K vid (index f) = Inr f)
            (seal_from P rnd K vid k pts) pts"
  using assms(5,6)
proof (induction pts arbitrary: k)
  case Nil
  then show ?case by simp
next
  case (Cons pt pts)
  have lenK: "length K = 32"
    using assms(3) by (simp add: validateMasterKey_def KEY_LENGTH_def split: if_splits)
  have ne: "pt \<noteq> []" using Cons.prems(1) by simp
  have k: "k \<le> 100000" using Cons.prems(2) by simp
  have w: "wire_frame (sealed_frame P rnd K vid k pt)"
    using wire_frame_sealed [OF assms(1) _ lenK ne, of rnd k vid] assms(2) k by simp
  have e: "encryptChunk P (rnd k) pt K vid k = Inr (sealed_frame P rnd K vid k pt)"
    by (rule encryptChunk_sealed [OF assms(3,4) ne k])
  have i: "index (sealed_frame P rnd K vid k pt) = k" by (simp add: sealed_frame_def)
  have h: "\<exists>n. length n = 12 \<and> encryptChunk P n pt K vid (index (sealed_frame P rnd K vid k pt))
               = Inr (sealed_frame P rnd K vid k pt)"
    using e i assms(2) by (intro exI [of _ "rnd k"]) simp
  have "(\<forall>c \<in> set (seal_from P rnd K vid (Suc k) pts). wire_frame c)
       \<and> list_all2 (\<lambda>f pt. \<exists>n. length n = 12 \<and> encryptChunk P n pt K vid (index f) = Inr f)
            (seal_from P rnd K vid (Suc k) pts) pts"
    using Cons.IH [of "Suc k"] Cons.prems by simp
  then show ?case using w h by simp
qed

lemma all_chunks_nonempty: "0 < F \<Longrightarrow> \<forall>pt \<in> set (all_chunks F D). pt \<noteq> []"
proof
  fix pt assume F: "0 < F" and "pt \<in> set (all_chunks F D)"
  then obtain i where i: "i < length (all_chunks F D)" and pt: "pt = all_chunks F D ! i"
    by (auto simp: in_set_conv_nth)
  have "1 \<le> length (all_chunks F D ! i)"
    using length_nth_all_chunks [OF F i] by blast
  then show "pt \<noteq> []" using pt by auto
qed

lemma encryptBuffer_frames:
  assumes "aead_correct P" and "\<forall>i. length (rnd i) = 12"
    and "deriveVideoKey P M vid = Inr K" and "validateMasterKey K = Inr ()"
    and "(length B + chunkSize_or_default opt - 1) div chunkSize_or_default opt \<le> 100001"
  shows "encryptBuffer P rnd B M vid opt
           = Inr (map serialized (seal_from P rnd K vid 0 (all_chunks (chunkSize_or_default opt) B)))
       \<and> (\<forall>c \<in> set (seal_from P rnd K vid 0 (all_chunks (chunkSize_or_default opt) B)).
             wire_frame c)
       \<and> DecryptionStream_run P K vid
             (seal_from P rnd K vid 0 (all_chunks (chunkSize_or_default opt) B))
           = (all_chunks (chunkSize_or_default opt) B, None)"
proof -
  let ?F = "chunkSize_or_default opt"
  let ?pts = "all_chunks ?F B"
  let ?frames = "seal_from P rnd K vid 0 ?pts"
  have F: "0 < ?F" by (rule chunkSize_or_default_pos)
  have vid: "validateVideoId vid = Inr ()"
    using assms(3) by (auto simp: deriveVideoKey_def split: sum.splits)
  have cap: "(length (concat [B]) + ?F - 1) div ?F \<le> 100001" using assms(5) by simp
  have run: "EncryptionStream_run P rnd K vid opt [B] = (?frames, None)"
    using EncryptionStream_run_frames [OF assms(4) vid cap] by simp
  have n: "0 + length ?pts \<le> 100001"
    using assms(5) length_all_chunks [OF F, of B] by simp
  have props: "(\<forall>c \<in> set ?frames. wire_frame c)
       \<and> list_all2 (\<lambda>f pt. \<exists>n. length n = 12 \<and> encryptChunk P n pt K vid (index f) = Inr f)
            ?frames ?pts"
    by (rule seal_from_props [OF assms(1,2,4) vid all_chunks_nonempty [OF F] n])
  then have idx: "\<forall>c \<in> set ?frames. index c < 4294967296"
    by (simp add: wire_frame_def)
  have ser: "feed ChunkSerializationStream_transform () ?frames
               = ((), map serialized ?frames, None)"
    by (rule feed_ChunkSerializationStream [OF idx])
  have enc: "encryptBuffer P rnd B M vid opt = Inr (map serialized ?frames)"
    using assms(3) run ser by (simp add: encryptBuffer_def)
  have dec: "DecryptionStream_run P K vid ?frames = (?pts, None)"
    using DecryptionStream_run_sealed [OF assms(1)] props by blast
  show ?thesis using enc props dec by blast
qed

lemma frames_within_cap:
  assumes "0 < F" and "length B \<le> 4 * F"
  shows "(length B + F - 1) div F \<le> 100001"
proof -
  have "length B + F - 1 \<le> 5 * F" using assms by simp
  then have "(length B + F - 1) div F \<le> 5 * F div F" by (rule div_le_mono)
  then show ?thesis using assms(1) by simp
qed






text \<open>
  The first class \<open>ChunkDeserializationStream\<close> of the sources does read these frames:
  written one per call, they come out of it as they went into the serialization, and the
  decrypt framer gives the pieces of \<open>B\<close> back.
\<close>

lemma framewise_reads_encryptBuffer_output:
  assumes "aead_correct P" and "\<forall>i. length (rnd i) = 12"
    and "deriveVideoKey P M vid = Inr K" and "validateMasterKey K = Inr ()"
    and "length B \<le> 4 * chunkSize_or_default opt"
  shows "\<exists>chunks frames pts. encryptBuffer P rnd B M vid opt = Inr chunks
           \<and> feed framewise_transform [] chunks = ([], frames, None)
           \<and> framewise_flush [] = None
           \<and> DecryptionStream_run P K vid frames = (pts, None)
           \<and> concat pts = B"
proof -
  let ?F = "chunkSize_or_default opt"
  let ?pts = "all_chunks ?F B"
  let ?frames = "seal_from P rnd K vid 0 ?pts"
  have F: "0 < ?F" by (rule chunkSize_or_default_pos)
  have cap: "(length B + ?F - 1) div ?F \<le> 100001"
    by (rule frames_within_cap [OF F assms(5)])
  have e: "encryptBuffer P rnd B M vid opt = Inr (map serialized ?frames)"
    and w: "\<forall>c \<in> set ?frames. wire_frame c"
    and d: "DecryptionStream_run P K vid ?frames = (?pts, None)"
    using encryptBuffer_frames [OF assms(1,2,3,4) cap] by blast+
  have r: "feed framewise_transform [] (map serialized ?frames) = ([], ?frames, None)"
    by (rule feed_framewise [OF w])
  have c: "concat ?pts = B" by (rule concat_all_chunks [OF F])
  have "framewise_flush [] = None" by (simp add: framewise_flush_def)
  with e r d c show ?thesis by blast
qed

end
